theory Spec2Isabelle
  imports Complex_Main "HOL-Library.Word" "HOL-Library.Log_Nat"
begin

unbundle bit_operations_syntax

chapter \<open>The model\<close>

section \<open>Audio codec: 16-bit linear PCM to 8-bit \<mu>-law\<close>

text \<open>
  The encoder \<^verbatim>\<open>linearToMulaw\<close> of the PCM-to-\<mu>-law transform works on JavaScript
  numbers that hold 16-bit samples (they come from \<^verbatim>\<open>readInt16LE\<close>). After the clip at
  32635 and the bias of 0x84 the magnitude lies in 132..32767, so the 32-bit bitwise
  operators of the source agree with the bit operations on \<open>int\<close> used here.
  The segment table is the source's literal table of 128 entries.
\<close>

definition MULAW_BIAS :: int where "MULAW_BIAS = 0x84"
definition MULAW_CLIP :: int where "MULAW_CLIP = 32635"

definition SEGMENT_TABLE :: "int list" where
  "SEGMENT_TABLE =
    [0, 1, 2, 2, 3, 3, 3, 3, 4, 4, 4, 4, 4, 4, 4, 4, 5, 5, 5, 5, 5, 5, 5, 5, 5, 5,
     5, 5, 5, 5, 5, 5, 6, 6, 6, 6, 6, 6, 6, 6, 6, 6, 6, 6, 6, 6, 6, 6, 6, 6, 6, 6,
     6, 6, 6, 6, 6, 6, 6, 6, 6, 6, 6, 6, 7, 7, 7, 7, 7, 7, 7, 7, 7, 7, 7, 7, 7, 7,
     7, 7, 7, 7, 7, 7, 7, 7, 7, 7, 7, 7, 7, 7, 7, 7, 7, 7, 7, 7, 7, 7, 7, 7, 7, 7,
     7, 7, 7, 7, 7, 7, 7, 7, 7, 7, 7, 7, 7, 7, 7, 7, 7, 7, 7, 7, 7, 7, 7, 7]"

text \<open>
  The encoder, split at the source's local variables: \<^verbatim>\<open>sign\<close>, the clipped and biased
  \<^verbatim>\<open>absValue\<close>, the \<^verbatim>\<open>segment\<close> looked up in the table, and the packed, inverted byte.
\<close>

definition mulawSign :: "int \<Rightarrow> int" where
  "mulawSign sample = (if sample < 0 then 0x80 else 0x00)"

definition mulawBiased :: "int \<Rightarrow> int" where
  "mulawBiased sample =
     (let absValue = (if sample < 0 then - sample else sample);
          absValue = (if absValue > MULAW_CLIP then MULAW_CLIP else absValue)
      in absValue + MULAW_BIAS)"

definition mulawSegment :: "int \<Rightarrow> int" where
  "mulawSegment sample = SEGMENT_TABLE ! nat (drop_bit 8 (mulawBiased sample) AND 0x7f)"

definition linearToMulaw :: "int \<Rightarrow> int" where
  "linearToMulaw sample =
     (let sign = mulawSign sample;
          absValue = mulawBiased sample;
          segment = mulawSegment sample
      in NOT (sign OR push_bit 4 segment OR (drop_bit (nat segment + 3) absValue AND 0x0f)) AND 0xff)"

text \<open>
  The decoding table of the \<mu>-law-to-PCM transform, entry \<open>i\<close> as the source's
  initialisation loop computes it. It is on the 14-bit scale of G.711 (bias 33).
\<close>

definition MULAW_TO_LINEAR :: "int \<Rightarrow> int" where
  "MULAW_TO_LINEAR i =
     (let mulaw = NOT i AND 0xff;
          sign = (if mulaw AND 0x80 \<noteq> 0 then -1 else 1);
          exponent = drop_bit 4 mulaw AND 0x07;
          mantissa = mulaw AND 0x0f;
          linear = push_bit (nat exponent) (push_bit 1 mantissa + 33)
      in (linear - 33) * sign)"

text \<open>
  The standard \<mu>-law expansion to 16-bit linear PCM, the law the round-trip property
  speaks of: recover the inverted byte, rebuild the biased magnitude of the middle of the
  quantisation interval with the same bias 0x84 as the encoder, and remove the bias.
  This definition follows the standard, not a function of the repository.
\<close>

definition ulaw2linear :: "int \<Rightarrow> int" where
  "ulaw2linear code =
     (let u = NOT code AND 0xff;
          t = push_bit 3 (u AND 0x0f) + 0x84;
          t = push_bit (nat (drop_bit 4 (u AND 0x70))) t
      in if u AND 0x80 \<noteq> 0 then 0x84 - t else t - 0x84)"

section \<open>Audio codec: linear-interpolation resampling of 16-bit PCM\<close>

subsection \<open>JavaScript numbers\<close>

text \<open>
  A JavaScript number is an IEEE 754 double. A finite number is modelled by the rational
  it denotes, and every arithmetic operation of the source by the exact operation followed
  by the rounding of IEEE 754: to the nearest double, a tie to the one with the even
  significand. The doubles around \<open>x\<close> are the multiples of \<open>ulp x\<close>, which is
  \<open>2\<close> to the power \<open>e - 52\<close> for \<open>x\<close> between \<open>2 ^ e\<close> and \<open>2 ^ (e + 1)\<close>, and
  \<open>2\<close> to the power \<open>-1074\<close> for the subnormal numbers below \<open>2\<close> to the power \<open>-1022\<close>.
  The sign of a zero is not kept.
\<close>

datatype number = Finite rat | PosInfinity | NegInfinity | NaN

definition exponent :: "rat \<Rightarrow> int" where
  "exponent x =
     (let (p, q) = quotient_of \<bar>x\<bar>;
          d = bitlen p - bitlen q
      in if power_int 2 d \<le> \<bar>x\<bar> then d else d - 1)"

definition ulp :: "rat \<Rightarrow> rat" where
  "ulp x = power_int 2 (max (exponent x) (- 1022) - 52)"

definition roundHalfEven :: "rat \<Rightarrow> int" where
  "roundHalfEven y =
     (let f = \<lfloor>y\<rfloor>; d = y - of_int f
      in if d < 1 / 2 then f else if 1 / 2 < d then f + 1 else if even f then f else f + 1)"

definition roundToDouble :: "rat \<Rightarrow> rat" where
  "roundToDouble x = (if x = 0 then 0 else of_int (roundHalfEven (x / ulp x)) * ulp x)"

text \<open>
  \<^verbatim>\<open>Number.MAX_VALUE\<close> is the largest finite double. A result whose rounding lies beyond
  it is an infinity.
\<close>

definition MAX_VALUE :: rat where
  "MAX_VALUE = (2 ^ 53 - 1) * 2 ^ 971"

definition toNumber :: "rat \<Rightarrow> number" where
  "toNumber x =
     (let y = roundToDouble x
      in if MAX_VALUE < y then PosInfinity else if y < - MAX_VALUE then NegInfinity else Finite y)"

text \<open>
  The quotient of two finite numbers. A division by zero gives an infinity, or
  \<^verbatim>\<open>NaN\<close> for \<open>0 / 0\<close>; of the two infinities the one for a divisor \<open>+0\<close> is given, and
  the function below treats both alike.
\<close>

definition jsDivide :: "rat \<Rightarrow> rat \<Rightarrow> number" where
  "jsDivide a b =
     (if b = 0 then (if a = 0 then NaN else if 0 < a then PosInfinity else NegInfinity)
      else toNumber (a / b))"

text \<open>
  Sum, difference and product, as used inside the loop of the resampler. There the
  rounded result is given also when it lies beyond \<^verbatim>\<open>Number.MAX_VALUE\<close>, where the source
  has an infinity: this can happen to \<^verbatim>\<open>srcIndex\<close> and to the offset computed from it
  only, and the read at an infinite offset throws the same RangeError as the read at an
  offset beyond the buffer.
\<close>

definition jsPlus :: "rat \<Rightarrow> rat \<Rightarrow> rat" where
  "jsPlus a b = roundToDouble (a + b)"

definition jsMinus :: "rat \<Rightarrow> rat \<Rightarrow> rat" where
  "jsMinus a b = roundToDouble (a - b)"

definition jsTimes :: "rat \<Rightarrow> rat \<Rightarrow> rat" where
  "jsTimes a b = roundToDouble (a * b)"

text \<open>\<^verbatim>\<open>Math.round\<close> rounds to the nearest integer, halves towards plus infinity.\<close>

definition Math_round :: "rat \<Rightarrow> int" where
  "Math_round x = \<lfloor>x + 1 / 2\<rfloor>"

subsection \<open>Buffers\<close>

text \<open>
  A \<^verbatim>\<open>Buffer\<close> is a list of bytes, of at most \<^verbatim>\<open>buffer.constants.MAX_LENGTH\<close> bytes.
  That bound depends on the version of Node; \<open>2 ^ 53 - 1\<close> is the largest it has. The
  length of a buffer, and half of it, are therefore numbers without rounding.
  Everything that throws in Node is a branch returning \<open>Inl\<close>.
\<close>

type_synonym byte = "8 word"

datatype js_error = RangeError

definition kMaxLength :: int where
  "kMaxLength = 2 ^ 53 - 1"

text \<open>
  \<^verbatim>\<open>buf.readInt16LE(offset)\<close>: the offset must be an integer with
  \<open>0 \<le> offset \<le> length - 2\<close>, otherwise a RangeError is thrown; the two bytes are read
  little-endian as a two's-complement value.
\<close>

definition readInt16LE :: "byte list \<Rightarrow> rat \<Rightarrow> js_error + int" where
  "readInt16LE buf offset =
     (if of_int \<lfloor>offset\<rfloor> \<noteq> offset \<or> offset < 0 \<or> of_nat (length buf) < offset + 2
      then Inl RangeError
      else (let k = nat \<lfloor>offset\<rfloor>;
                v = uint (buf ! k) + 256 * uint (buf ! (k + 1))
            in Inr (if v \<ge> 32768 then v - 65536 else v)))"

text \<open>
  \<^verbatim>\<open>buf.writeInt16LE(value, offset)\<close>: the value must lie in the signed 16-bit range
  and the offset in the buffer, otherwise a RangeError is thrown.
\<close>

definition writeInt16LE :: "byte list \<Rightarrow> int \<Rightarrow> rat \<Rightarrow> js_error + byte list" where
  "writeInt16LE buf v offset =
     (if v < -32768 \<or> 32767 < v \<or>
         of_int \<lfloor>offset\<rfloor> \<noteq> offset \<or> offset < 0 \<or> of_nat (length buf) < offset + 2
      then Inl RangeError
      else (let k = nat \<lfloor>offset\<rfloor>
            in Inr (buf[k := word_of_int v, k + 1 := word_of_int (v div 256)])))"

text \<open>
  \<^verbatim>\<open>Buffer.alloc(size)\<close>: zero-filled; a size that is negative or above the largest
  length throws.
\<close>

definition Buffer_alloc :: "int \<Rightarrow> js_error + byte list" where
  "Buffer_alloc n =
     (if n < 0 \<or> kMaxLength < n then Inl RangeError else Inr (replicate (nat n) 0))"

subsection \<open>The resampler\<close>

text \<open>
  \<^verbatim>\<open>resamplePCM\<close> is defined, with the same body, in the Hume and in the OpenAI
  text-to-speech adapters. The two rates are finite numbers.

  The first half of the loop body: the source index and its neighbours, the two reads and
  the interpolation, for output index \<open>i\<close>. \<^verbatim>\<open>inputSamples\<close> is \<^verbatim>\<open>input.length / 2\<close>, a
  half-integer when the buffer has an odd number of bytes.
\<close>

definition interpolateSample :: "byte list \<Rightarrow> rat \<Rightarrow> rat \<Rightarrow> int \<Rightarrow> js_error + int" where
  "interpolateSample input ratio inputSamples i =
     (let srcIndex = jsTimes (of_int i) ratio;
          srcIndexFloor = \<lfloor>srcIndex\<rfloor>;
          srcIndexCeil = min (jsPlus (of_int srcIndexFloor) 1) (jsMinus inputSamples 1);
          fraction = jsMinus srcIndex (of_int srcIndexFloor)
      in case readInt16LE input (jsTimes (of_int srcIndexFloor) 2) of
           Inl e \<Rightarrow> Inl e
         | Inr sample1 \<Rightarrow>
            (case readInt16LE input (jsTimes srcIndexCeil 2) of
               Inl e \<Rightarrow> Inl e
             | Inr sample2 \<Rightarrow>
                 Inr (Math_round
                        (jsPlus (of_int sample1)
                           (jsTimes (jsMinus (of_int sample2) (of_int sample1)) fraction)))))"

text \<open>
  The \<^verbatim>\<open>for\<close> loop over the output samples: clamp the interpolated value and write it
  at byte offset \<open>i * 2\<close> of the output buffer.
\<close>

function resampleLoop :: "byte list \<Rightarrow> rat \<Rightarrow> rat \<Rightarrow> int \<Rightarrow> int \<Rightarrow> byte list \<Rightarrow> js_error + byte list" where
  "resampleLoop input ratio inputSamples outputSamples i output =
     (if i < outputSamples then
        (case interpolateSample input ratio inputSamples i of
           Inl e \<Rightarrow> Inl e
         | Inr interpolated \<Rightarrow>
            (case writeInt16LE output (max (-32768) (min 32767 interpolated)) (jsTimes (of_int i) 2) of
               Inl e \<Rightarrow> Inl e
             | Inr output' \<Rightarrow> resampleLoop input ratio inputSamples outputSamples (i + 1) output'))
      else Inr output)"
  by pat_completeness auto
termination
  by (relation "measure (\<lambda>(input, ratio, inputSamples, outputSamples, i, output). nat (outputSamples - i))") auto

declare resampleLoop.simps [simp del]

text \<open>
  The function itself. Equal rates return the input buffer. An infinite ratio (a
  \<^verbatim>\<open>toRate\<close> of zero, or a quotient beyond the largest double) makes the number of output
  samples zero, and the empty buffer is returned. When \<^verbatim>\<open>inputSamples / ratio\<close> is not
  finite (a ratio of zero), or negative, or too large, the size handed to
  \<^verbatim>\<open>Buffer.alloc\<close> is not a valid size and it throws.
\<close>

definition resamplePCM :: "byte list \<Rightarrow> rat \<Rightarrow> rat \<Rightarrow> js_error + byte list" where
  "resamplePCM input fromRate toRate =
     (if fromRate = toRate then Inr input
      else
        (case jsDivide fromRate toRate of
           Finite ratio \<Rightarrow>
             (let inputSamples = of_nat (length input) / 2
              in case jsDivide inputSamples ratio of
                   Finite samples \<Rightarrow>
                     (let outputSamples = \<lfloor>samples\<rfloor>
                      in case Buffer_alloc (outputSamples * 2) of
                           Inl e \<Rightarrow> Inl e
                         | Inr output \<Rightarrow>
                             resampleLoop input ratio inputSamples outputSamples 0 output)
                 | _ \<Rightarrow> Inl RangeError)
         | NaN \<Rightarrow> Inl RangeError
         | _ \<Rightarrow> Inr []))"

section \<open>Voice activity detection in the batch speech-to-text adapter\<close>

text \<open>
  The OpenAI (Whisper) adapter buffers audio with an energy-based detector. Its state is
  the set of \<^verbatim>\<open>let\<close> variables of the constructor that decide what is buffered and
  flushed; the variables that only feed log lines and the partial transcriptions
  (\<^verbatim>\<open>speechStartTime\<close>, \<^verbatim>\<open>peakEnergy\<close>, \<^verbatim>\<open>totalEnergy\<close>, \<^verbatim>\<open>frameCount\<close>,
  \<^verbatim>\<open>lastPartialTime\<close> and so on) are left out: no branch that changes the buffer, the
  counters or the result reads them. The sample rate is a natural number of Hertz.
\<close>

record vad_config =
  sampleRate :: nat
  minAudioDurationMs :: rat
  vadEnergyThreshold :: rat
  vadSilenceFrames :: int
  hasOnSpeechStart :: bool

definition frameSizeMs :: nat where "frameSizeMs = 32"

definition samplesPerFrame :: "vad_config \<Rightarrow> nat" where
  "samplesPerFrame cfg = (sampleRate cfg * frameSizeMs) div 1000"

definition bytesPerFrame :: "vad_config \<Rightarrow> nat" where
  "bytesPerFrame cfg = samplesPerFrame cfg * 2"

definition minSpeechFrames :: nat where "minSpeechFrames = 4"

record vad_state =
  audioBuffer :: "byte list list"
  speechFrameCount :: nat
  silenceFrameCount :: nat
  isSpeaking :: bool
  pendingBytes :: "byte list"
  speechStartSignaled :: bool

definition vad_initial :: vad_state where
  "vad_initial = \<lparr> audioBuffer = [], speechFrameCount = 0, silenceFrameCount = 0,
                    isSpeaking = False, pendingBytes = [], speechStartSignaled = False \<rparr>"

text \<open>
  \<^verbatim>\<open>calculateEnergy\<close>: the sum of the absolute values of the 16-bit samples, read at the
  even offsets below \<open>length - 1\<close> (a trailing odd byte is not read), divided by
  \<open>length / 2\<close>. For an empty frame the quotient is \<^verbatim>\<open>NaN\<close>, the value \<open>None\<close> here.
\<close>

fun sumAbsSamples :: "byte list \<Rightarrow> int" where
  "sumAbsSamples (lo # hi # rest) =
     (let v = uint lo + 256 * uint hi;
          sample = (if v \<ge> 32768 then v - 65536 else v)
      in \<bar>sample\<bar> + sumAbsSamples rest)"
| "sumAbsSamples _ = 0"

definition calculateEnergy :: "byte list \<Rightarrow> rat option" where
  "calculateEnergy frame =
     (if frame = [] then None
      else Some (of_int (sumAbsSamples frame) / (of_nat (length frame) / 2)))"

text \<open>\<^verbatim>\<open>energy > vadEnergyThreshold\<close>; a comparison with \<^verbatim>\<open>NaN\<close> is false.\<close>

definition isSpeech :: "vad_config \<Rightarrow> byte list \<Rightarrow> bool" where
  "isSpeech cfg frame =
     (case calculateEnergy frame of None \<Rightarrow> False | Some energy \<Rightarrow> energy > vadEnergyThreshold cfg)"

text \<open>
  What one call of \<^verbatim>\<open>processFrame\<close> gives back: whether it invoked the
  \<^verbatim>\<open>onSpeechStart\<close> callback, and the returned object
  \<^verbatim>\<open>{ speechEnded, audioData }\<close> with \<^verbatim>\<open>null\<close> as \<open>None\<close>.
\<close>

record frame_result =
  speechStartFired :: bool
  speechEnded :: bool
  audioData :: "byte list option"

definition processFrame :: "vad_config \<Rightarrow> vad_state \<Rightarrow> byte list \<Rightarrow> vad_state \<times> frame_result" where
  "processFrame cfg st frame =
     (if isSpeech cfg frame then
        (let st1 = st\<lparr> silenceFrameCount := 0, speechFrameCount := speechFrameCount st + 1 \<rparr>;
             starting = (\<not> isSpeaking st1 \<and> speechFrameCount st1 \<ge> minSpeechFrames);
             fire = (starting \<and> \<not> speechStartSignaled st1 \<and> hasOnSpeechStart cfg);
             st2 = (if starting then st1\<lparr> isSpeaking := True \<rparr> else st1);
             st3 = (if fire then st2\<lparr> speechStartSignaled := True \<rparr> else st2);
             st4 = (if isSpeaking st3 then st3\<lparr> audioBuffer := audioBuffer st3 @ [frame] \<rparr> else st3)
         in (st4, \<lparr> speechStartFired = fire, speechEnded = False, audioData = None \<rparr>))
      else if isSpeaking st then
        (let st1 = st\<lparr> silenceFrameCount := silenceFrameCount st + 1,
                         audioBuffer := audioBuffer st @ [frame] \<rparr>
         in if int (silenceFrameCount st1) \<ge> vadSilenceFrames cfg then
              (st1\<lparr> audioBuffer := [], speechFrameCount := 0, silenceFrameCount := 0,
                     isSpeaking := False, speechStartSignaled := False \<rparr>,
               \<lparr> speechStartFired = False, speechEnded = True,
                 audioData = Some (concat (audioBuffer st1)) \<rparr>)
            else (st1, \<lparr> speechStartFired = False, speechEnded = False, audioData = None \<rparr>))
      else (st\<lparr> speechFrameCount := 0 \<rparr>,
            \<lparr> speechStartFired = False, speechEnded = False, audioData = None \<rparr>))"

text \<open>
  What the transform does that can be seen from outside: the \<^verbatim>\<open>onSpeechStart\<close>
  callback, an utterance dropped for being shorter than \<^verbatim>\<open>minAudioDurationMs\<close>, and an
  utterance wrapped as a WAV file and sent to the transcription model. What comes back
  from the model, and the filter on its text, are outside this model.
\<close>

datatype vad_event = SpeechStart | SkippedTooShort "byte list" | SentToWhisper "byte list"

text \<open>
  What the body of the transform's loop does with the result of \<^verbatim>\<open>processFrame\<close>.
  The test \<^verbatim>\<open>result.speechEnded && result.audioData\<close> holds for every buffer object,
  also an empty one. The duration in milliseconds is computed from the byte count; with
  a sample rate of zero it is infinite or \<^verbatim>\<open>NaN\<close>, and then not below the minimum.
\<close>

definition resultEvents :: "vad_config \<Rightarrow> frame_result \<Rightarrow> vad_event list" where
  "resultEvents cfg res =
     (let started = (if speechStartFired res then [SpeechStart] else [])
      in case audioData res of
           Some audio \<Rightarrow>
             if speechEnded res then
               (let durationMs = (of_nat (length audio) / 2 / of_nat (sampleRate cfg)) * 1000
                in if sampleRate cfg \<noteq> 0 \<and> durationMs < minAudioDurationMs cfg
                   then started @ [SkippedTooShort audio]
                   else started @ [SentToWhisper audio])
             else started
         | None \<Rightarrow> started)"

definition handleFrame :: "vad_config \<Rightarrow> vad_state \<Rightarrow> byte list \<Rightarrow> vad_state \<times> vad_event list" where
  "handleFrame cfg st frame =
     (let (st', res) = processFrame cfg st frame in (st', resultEvents cfg res))"

text \<open>
  The \<^verbatim>\<open>while (offset + bytesPerFrame <= combined.length)\<close> loop of the transform.
  With \<^verbatim>\<open>bytesPerFrame\<close> zero (a sample rate below 32 Hz) the source never leaves the
  loop; \<open>transform\<close> below returns \<open>None\<close> for that and calls the loop only with a positive
  frame size, which is also what makes the recursion terminate.
\<close>

function transformLoop ::
  "vad_config \<Rightarrow> byte list \<Rightarrow> nat \<Rightarrow> vad_state \<Rightarrow> vad_event list \<Rightarrow> vad_state \<times> vad_event list" where
  "transformLoop cfg combined offset st evs =
     (if 0 < bytesPerFrame cfg \<and> offset + bytesPerFrame cfg \<le> length combined then
        (let frame = take (bytesPerFrame cfg) (drop offset combined);
             (st', new) = handleFrame cfg st frame
         in transformLoop cfg combined (offset + bytesPerFrame cfg) st' (evs @ new))
      else (st\<lparr> pendingBytes := drop offset combined \<rparr>, evs))"
  by pat_completeness auto
termination
  by (relation "measure (\<lambda>(cfg, combined, offset, st, evs). length combined - offset)") auto

declare transformLoop.simps [simp del]

definition transform :: "vad_config \<Rightarrow> vad_state \<Rightarrow> byte list \<Rightarrow> (vad_state \<times> vad_event list) option" where
  "transform cfg st chunk =
     (if bytesPerFrame cfg = 0 then None
      else Some (transformLoop cfg (pendingBytes st @ chunk) 0 st []))"

text \<open>The stream: the chunks are transformed one after the other.\<close>

fun transformAll :: "vad_config \<Rightarrow> vad_state \<Rightarrow> byte list list \<Rightarrow> (vad_state \<times> vad_event list) option" where
  "transformAll cfg st [] = Some (st, [])"
| "transformAll cfg st (chunk # chunks) =
     (case transform cfg st chunk of
        None \<Rightarrow> None
      | Some (st', evs) \<Rightarrow>
          (case transformAll cfg st' chunks of
             None \<Rightarrow> None
           | Some (st'', evs') \<Rightarrow> Some (st'', evs @ evs')))"

text \<open>
  The frames of a stream of bytes: consecutive slices of \<open>n\<close> bytes; what is left at
  the end is shorter than a frame and belongs to none. And the detector run frame by frame.
\<close>

fun framesOf :: "nat \<Rightarrow> byte list \<Rightarrow> byte list list" where
  "framesOf n bytes =
     (if 0 < n \<and> n \<le> length bytes then take n bytes # framesOf n (drop n bytes) else [])"

fun restOf :: "nat \<Rightarrow> byte list \<Rightarrow> byte list" where
  "restOf n bytes = (if 0 < n \<and> n \<le> length bytes then restOf n (drop n bytes) else bytes)"

declare framesOf.simps [simp del] restOf.simps [simp del]

fun processFrames :: "vad_config \<Rightarrow> vad_state \<Rightarrow> byte list list \<Rightarrow> vad_state \<times> frame_result list" where
  "processFrames cfg st [] = (st, [])"
| "processFrames cfg st (frame # frames) =
     (let (st', res) = processFrame cfg st frame;
          (st'', ress) = processFrames cfg st' frames
      in (st'', res # ress))"

text \<open>
  The longest run of consecutive speech frames in a list of frames, computed with the
  length of the run in progress.
\<close>

fun longestSpeechRun :: "vad_config \<Rightarrow> nat \<Rightarrow> byte list list \<Rightarrow> nat" where
  "longestSpeechRun cfg cur [] = cur"
| "longestSpeechRun cfg cur (frame # frames) =
     (if isSpeech cfg frame then longestSpeechRun cfg (cur + 1) frames
      else max cur (longestSpeechRun cfg 0 frames))"

text \<open>
  In a list of events every \<open>SpeechStart\<close> is followed by the end of an utterance (sent
  or skipped) before the next \<open>SpeechStart\<close>. \<open>seen\<close> says whether a \<open>SpeechStart\<close> has
  occurred since the last end of an utterance.
\<close>

fun startsAlternate :: "bool \<Rightarrow> vad_event list \<Rightarrow> bool" where
  "startsAlternate seen [] = True"
| "startsAlternate seen (SpeechStart # evs) = (\<not> seen \<and> startsAlternate True evs)"
| "startsAlternate seen (_ # evs) = startsAlternate False evs"

text \<open>
  A configuration and frames to run the detector on: 63 Hz gives frames of two samples
  (four bytes); the frames \<open>loudFrame k\<close> are above the threshold and differ in their first
  byte, \<open>quietFrame\<close> is silence.
\<close>

definition vad_example_config :: vad_config where
  "vad_example_config =
     \<lparr> sampleRate = 63, minAudioDurationMs = 0, vadEnergyThreshold = 500,
       vadSilenceFrames = 2, hasOnSpeechStart = True \<rparr>"

definition loudFrame :: "nat \<Rightarrow> byte list" where
  "loudFrame k = [of_nat k, 64, 0, 64]"

definition quietFrame :: "byte list" where
  "quietFrame = [0, 0, 0, 0]"

section \<open>Middleware: combining voice hooks\<close>

text \<open>
  A \<^verbatim>\<open>TransformStream<T, T>\<close> is modelled by what it does to a stream: a function from
  the list of chunks written to it to the list of chunks read from it.
  \<^verbatim>\<open>stream.pipeThrough(transform)\<close> is then the application of that function.
\<close>

type_synonym 'a transform = "'a list \<Rightarrow> 'a list"

definition pipeThrough :: "'a list \<Rightarrow> 'a transform \<Rightarrow> 'a list" where
  "pipeThrough stream t = t stream"

text \<open>
  An event callback \<^verbatim>\<open>() => void\<close> acts on the world outside, of some type \<open>'w\<close>, and
  either returns or throws: it gives the world it leaves behind and the exception thrown,
  if any.
\<close>

type_synonym 'w callback = "'w \<Rightarrow> 'w \<times> string option"

text \<open>
  \<^verbatim>\<open>VoiceHooks\<close>: every hook is optional. Audio seams carry buffers, text seams carry
  strings.
\<close>

record 'w voice_hooks =
  beforeSTT :: "byte list transform list option"
  afterSTT :: "string transform list option"
  beforeTTS :: "string transform list option"
  afterTTS :: "byte list transform list option"
  onSpeechStart :: "'w callback option"
  onAudioComplete :: "'w callback option"

text \<open>
  A middleware passed to \<^verbatim>\<open>combineMiddleware\<close> is either a plain agent middleware or a
  voice middleware, which carries the marker \<^verbatim>\<open>__voiceMiddleware\<close> and its voice hooks.
  Both have a name; the agent-side hooks of either are passed on untouched and are not
  modelled.
\<close>

datatype 'w middleware =
  AgentMiddleware string
| VoiceMiddleware string "'w voice_hooks"

fun isVoiceMiddleware :: "'w middleware \<Rightarrow> bool" where
  "isVoiceMiddleware (VoiceMiddleware name hooks) = True"
| "isVoiceMiddleware (AgentMiddleware name) = False"

text \<open>\<^verbatim>\<open>CombinedVoiceHooks\<close> extends the hooks by the list of all middleware.\<close>

record 'w combined_voice_hooks = "'w voice_hooks" +
  agentMiddleware :: "'w middleware list"

text \<open>
  The state of the \<^verbatim>\<open>for\<close> loop of \<^verbatim>\<open>combineMiddleware\<close>: the object under
  construction and the two arrays of collected callbacks.
\<close>

record 'w combine_state =
  combined :: "'w combined_voice_hooks"
  speechStartCallbacks :: "'w callback list"
  audioCompleteCallbacks :: "'w callback list"

text \<open>
  \<^verbatim>\<open>combined.beforeSTT!.push(...voiceHooks.beforeSTT)\<close>, done only when the hook is
  present; the target array is always present, as the loop starts from empty arrays.
\<close>

definition pushAll :: "'a list option \<Rightarrow> 'a list option \<Rightarrow> 'a list option" where
  "pushAll target hook =
     (case hook of
        None \<Rightarrow> target
      | Some ts \<Rightarrow> (case target of None \<Rightarrow> None | Some acc \<Rightarrow> Some (acc @ ts)))"

definition pushOne :: "'a list \<Rightarrow> 'a option \<Rightarrow> 'a list" where
  "pushOne target hook = (case hook of None \<Rightarrow> target | Some cb \<Rightarrow> target @ [cb])"

fun combineStep :: "'w combine_state \<Rightarrow> 'w middleware \<Rightarrow> 'w combine_state" where
  "combineStep s (AgentMiddleware name) =
     s\<lparr> combined := (combined s)\<lparr> agentMiddleware := agentMiddleware (combined s) @ [AgentMiddleware name] \<rparr> \<rparr>"
| "combineStep s (VoiceMiddleware name hooks) =
     (let c = (combined s)\<lparr> agentMiddleware :=
                 agentMiddleware (combined s) @ [VoiceMiddleware name hooks] \<rparr>;
          c = c\<lparr> beforeSTT := pushAll (beforeSTT c) (beforeSTT hooks) \<rparr>;
          c = c\<lparr> afterSTT := pushAll (afterSTT c) (afterSTT hooks) \<rparr>;
          c = c\<lparr> beforeTTS := pushAll (beforeTTS c) (beforeTTS hooks) \<rparr>;
          c = c\<lparr> afterTTS := pushAll (afterTTS c) (afterTTS hooks) \<rparr>
      in \<lparr> combined = c,
           speechStartCallbacks = pushOne (speechStartCallbacks s) (onSpeechStart hooks),
           audioCompleteCallbacks = pushOne (audioCompleteCallbacks s) (onAudioComplete hooks) \<rparr>)"

fun combineLoop :: "'w combine_state \<Rightarrow> 'w middleware list \<Rightarrow> 'w combine_state" where
  "combineLoop s [] = s"
| "combineLoop s (m # ms) = combineLoop (combineStep s m) ms"

text \<open>
  The combined event callback: \<^verbatim>\<open>for (const callback of callbacks) { callback() }\<close>.
  There is no \<^verbatim>\<open>try\<close> around the call, so an exception thrown by a callback leaves the
  loop and the combined callback.
\<close>

fun runCallbacks :: "'w callback list \<Rightarrow> 'w callback" where
  "runCallbacks [] w = (w, None)"
| "runCallbacks (cb # cbs) w =
     (case cb w of
        (w', Some e) \<Rightarrow> (w', Some e)
      | (w', None) \<Rightarrow> runCallbacks cbs w')"

definition combineMiddleware :: "'w middleware list \<Rightarrow> 'w combined_voice_hooks" where
  "combineMiddleware middlewares =
     (let s0 = \<lparr> combined = \<lparr> beforeSTT = Some [], afterSTT = Some [], beforeTTS = Some [],
                               afterTTS = Some [], onSpeechStart = None, onAudioComplete = None,
                               agentMiddleware = [] \<rparr>,
                  speechStartCallbacks = [], audioCompleteCallbacks = [] \<rparr>;
          s = combineLoop s0 middlewares;
          c = combined s;
          c = (if length (speechStartCallbacks s) > 0
               then c\<lparr> onSpeechStart := Some (runCallbacks (speechStartCallbacks s)) \<rparr> else c);
          c = (if length (audioCompleteCallbacks s) > 0
               then c\<lparr> onAudioComplete := Some (runCallbacks (audioCompleteCallbacks s)) \<rparr> else c)
      in c)"

text \<open>\<^verbatim>\<open>pipeThroughTransforms\<close>: pipe the stream through the transforms, one after the other.\<close>

fun pipeThroughTransforms :: "'a list \<Rightarrow> 'a transform list \<Rightarrow> 'a list" where
  "pipeThroughTransforms stream [] = stream"
| "pipeThroughTransforms stream (t # transforms) =
     pipeThroughTransforms (pipeThrough stream t) transforms"

text \<open>
  What one middleware contributes: its transforms for a seam (none for an agent
  middleware or an absent hook) and its callback for an event. A seam is given by its
  field of the hooks.
\<close>

fun seamContribution :: "('w voice_hooks \<Rightarrow> 'a list option) \<Rightarrow> 'w middleware \<Rightarrow> 'a list" where
  "seamContribution seam (AgentMiddleware name) = []"
| "seamContribution seam (VoiceMiddleware name hooks) =
     (case seam hooks of None \<Rightarrow> [] | Some ts \<Rightarrow> ts)"

fun eventContribution :: "('w voice_hooks \<Rightarrow> 'w callback option) \<Rightarrow> 'w middleware \<Rightarrow> 'w callback list" where
  "eventContribution event (AgentMiddleware name) = []"
| "eventContribution event (VoiceMiddleware name hooks) =
     (case event hooks of None \<Rightarrow> [] | Some cb \<Rightarrow> [cb])"

text \<open>
  Callbacks to run the combined callback on. The world is a log of names; \<open>logs name\<close>
  writes its name and returns, \<open>logsAndThrows name\<close> writes its name and throws.
\<close>

definition logs :: "string \<Rightarrow> string list callback" where
  "logs name w = (w @ [name], None)"

definition logsAndThrows :: "string \<Rightarrow> string list callback" where
  "logsAndThrows name w = (w @ [name], Some ''Error'')"

definition noHooks :: "string list voice_hooks" where
  "noHooks = \<lparr> beforeSTT = None, afterSTT = None, beforeTTS = None, afterTTS = None,
               onSpeechStart = None, onAudioComplete = None \<rparr>"

definition listener :: "string \<Rightarrow> string list middleware" where
  "listener name = VoiceMiddleware name (noHooks\<lparr> onSpeechStart := Some (logs name),
                                                  onAudioComplete := Some (logs name) \<rparr>)"

definition failingListener :: "string \<Rightarrow> string list middleware" where
  "failingListener name =
     VoiceMiddleware name (noHooks\<lparr> onSpeechStart := Some (logsAndThrows name),
                                    onAudioComplete := Some (logsAndThrows name) \<rparr>)"

text \<open>Text transforms to build chains from: one marks every chunk, one drops empty chunks.\<close>

definition tagChunks :: "string \<Rightarrow> string transform" where
  "tagChunks tag stream = map (\<lambda>chunk. chunk @ tag) stream"

definition dropEmpty :: "string transform" where
  "dropEmpty stream = filter (\<lambda>chunk. chunk \<noteq> []) stream"

definition textMiddleware :: "string \<Rightarrow> string transform list \<Rightarrow> string list middleware" where
  "textMiddleware name ts = VoiceMiddleware name (noHooks\<lparr> beforeTTS := Some ts \<rparr>)"

section \<open>The agent transform of the voice agent\<close>

text \<open>
  JavaScript values as far as the transform tells them apart: \<^verbatim>\<open>undefined\<close>,
  \<^verbatim>\<open>null\<close>, a string, or anything else (an object, a number), kept apart by a tag.
\<close>

datatype jsval = JUndefined | JNull | JString string | JOther nat

text \<open>
  What the agent's stream yields, seen through the tests of the loop: either something
  that is not an object (or is falsy), or an object, of which the loop looks at the
  properties \<^verbatim>\<open>content\<close>, \<^verbatim>\<open>tool_call_id\<close> and \<^verbatim>\<open>name\<close>. \<open>None\<close> is a property
  that is not \<^verbatim>\<open>in\<close> the object.
\<close>

record chunk_object =
  chunk_content :: "jsval option"
  chunk_tool_call_id :: "jsval option"
  chunk_name :: "jsval option"

datatype chunk = NotAnObject | Object chunk_object

text \<open>
  The transform runs on one thread, and everything else happens between its steps. While
  it iterates over the agent's stream, three things can come next: the agent yields a
  chunk, the iterator throws, or \<^verbatim>\<open>stop()\<close> is called on the voice agent, which sets
  \<^verbatim>\<open>state.stopped\<close>. The stream as the loop meets it is the list of these.
\<close>

datatype stream_item = Yield chunk | StreamThrows | StopCalled

datatype stream_result = StreamRejected | Stream "stream_item list"

text \<open>
  The state snapshot returned by \<^verbatim>\<open>agent.getState\<close>: \<^verbatim>\<open>tasks\<close> may be absent, and
  so may the \<^verbatim>\<open>interrupts\<close> of a task; an interrupt is given by its \<^verbatim>\<open>value\<close>.
\<close>

type_synonym task = "jsval list option"

datatype state_result = GetStateRejected | GraphState "task list option"

text \<open>The agent as one turn sees it: what its two calls give back.\<close>

record turn_env =
  agentStream :: stream_result
  agentGetState :: state_result

text \<open>\<^verbatim>\<open>VoiceAgentState\<close>; an absent \<^verbatim>\<open>pendingInterrupt\<close> is \<^verbatim>\<open>undefined\<close>.\<close>

record voice_agent_state =
  threadId :: string
  pendingInterrupt :: jsval
  stopped :: bool

text \<open>The two optional callbacks of \<^verbatim>\<open>createVoiceAgent\<close>: present or not.\<close>

record agent_callbacks =
  hasOnInterrupt :: bool
  hasOnHangUp :: bool

text \<open>
  The input handed to \<^verbatim>\<open>agent.stream\<close>: a new user message or a resume command, both
  carrying the text. What the transform does, in the order it does it: the call of the
  agent with the input and the thread id, the chunks it enqueues (told apart by the place
  in the source that enqueues them), the callbacks it invokes, the state query.
\<close>

datatype agent_input = NewUserMessage string | ResumeCommand string

datatype action =
  AgentStreamCall agent_input string
| EnqueueResponse string
| OnHangUp jsval
| AgentGetStateCall string
| OnInterrupt jsval
| EnqueueInterrupt string

text \<open>How the call of \<^verbatim>\<open>transform\<close> ends: it returns, or its promise is rejected.\<close>

datatype outcome = Returned | Rejected

text \<open>
  The text a chunk sends to the output: the \<^verbatim>\<open>content\<close> of an object that has a
  \<^verbatim>\<open>content\<close> and no \<^verbatim>\<open>tool_call_id\<close>, when it is a non-empty string.
\<close>

fun responseText :: "chunk \<Rightarrow> string list" where
  "responseText NotAnObject = []"
| "responseText (Object obj) =
     (case chunk_content obj of
        None \<Rightarrow> []
      | Some content \<Rightarrow>
          (case chunk_tool_call_id obj of
             Some tid \<Rightarrow> []
           | None \<Rightarrow> (case content of
                        JString text \<Rightarrow> (if length text > 0 then [text] else [])
                      | _ \<Rightarrow> [])))"

text \<open>
  The hang-up request of a chunk: an object with a \<^verbatim>\<open>name\<close> equal to
  \<^verbatim>\<open>'hang_up'\<close> sets the pending reason to its \<^verbatim>\<open>content\<close>, which is
  \<^verbatim>\<open>undefined\<close> when the object has none; any other chunk leaves the reason as it is.
\<close>

fun hangUpReason :: "jsval \<Rightarrow> chunk \<Rightarrow> jsval" where
  "hangUpReason pending NotAnObject = pending"
| "hangUpReason pending (Object obj) =
     (if chunk_name obj = Some (JString ''hang_up'')
      then (case chunk_content obj of None \<Rightarrow> JUndefined | Some content \<Rightarrow> content)
      else pending)"

text \<open>
  The \<^verbatim>\<open>for await\<close> loop. Its variables are the state, the pending hang-up reason and
  the actions so far; the result also says whether the iterator threw.
\<close>

fun consumeStream ::
  "voice_agent_state \<Rightarrow> jsval \<Rightarrow> action list \<Rightarrow> stream_item list
     \<Rightarrow> voice_agent_state \<times> jsval \<times> action list \<times> outcome" where
  "consumeStream st pendingHangUpReason acts [] = (st, pendingHangUpReason, acts, Returned)"
| "consumeStream st pendingHangUpReason acts (StopCalled # items) =
     consumeStream (st\<lparr> stopped := True \<rparr>) pendingHangUpReason acts items"
| "consumeStream st pendingHangUpReason acts (StreamThrows # items) =
     (st, pendingHangUpReason, acts, Rejected)"
| "consumeStream st pendingHangUpReason acts (Yield c # items) =
     (if stopped st then (st, pendingHangUpReason, acts, Returned)
      else consumeStream st (hangUpReason pendingHangUpReason c)
             (acts @ map EnqueueResponse (responseText c)) items)"

text \<open>
  The loop over the tasks of the state snapshot: a task with at least one interrupt
  sets the pending interrupt to the value of its first interrupt, invokes
  \<^verbatim>\<open>onInterrupt\<close> if there is one, and enqueues the value when it is a string.
\<close>

fun checkInterrupts ::
  "agent_callbacks \<Rightarrow> voice_agent_state \<Rightarrow> action list \<Rightarrow> task list
     \<Rightarrow> voice_agent_state \<times> action list" where
  "checkInterrupts cb st acts [] = (st, acts)"
| "checkInterrupts cb st acts (Some (interruptValue # others) # tasks) =
     checkInterrupts cb (st\<lparr> pendingInterrupt := interruptValue \<rparr>)
       (acts @ (if hasOnInterrupt cb then [OnInterrupt interruptValue] else [])
             @ (case interruptValue of JString text \<Rightarrow> [EnqueueInterrupt text] | _ \<Rightarrow> []))
       tasks"
| "checkInterrupts cb st acts (_ # tasks) = checkInterrupts cb st acts tasks"

text \<open>
  One call of \<^verbatim>\<open>transform(text, controller)\<close>: the state afterwards, the actions in
  order, and how the call ended. The callbacks are taken to return.
\<close>

definition agentTransform ::
  "agent_callbacks \<Rightarrow> voice_agent_state \<Rightarrow> string \<Rightarrow> turn_env
     \<Rightarrow> voice_agent_state \<times> action list \<times> outcome" where
  "agentTransform cb st text env =
     (if stopped st then (st, [], Returned)
      else
        (let (input, st1) =
               (if pendingInterrupt st \<noteq> JUndefined
                then (ResumeCommand text, st\<lparr> pendingInterrupt := JUndefined \<rparr>)
                else (NewUserMessage text, st));
             acts1 = [AgentStreamCall input (threadId st1)]
         in case agentStream env of
              StreamRejected \<Rightarrow> (st1, acts1, Rejected)
            | Stream items \<Rightarrow>
                (case consumeStream st1 JNull acts1 items of
                   (st2, pendingHangUpReason, acts2, Rejected) \<Rightarrow> (st2, acts2, Rejected)
                 | (st2, pendingHangUpReason, acts2, Returned) \<Rightarrow>
                     (let acts3 = acts2 @ (if pendingHangUpReason \<noteq> JNull \<and> hasOnHangUp cb
                                           then [OnHangUp pendingHangUpReason] else []);
                          acts4 = acts3 @ [AgentGetStateCall (threadId st2)]
                      in case agentGetState env of
                           GetStateRejected \<Rightarrow> (st2, acts4, Rejected)
                         | GraphState None \<Rightarrow> (st2, acts4, Returned)
                         | GraphState (Some tasks) \<Rightarrow>
                             (case checkInterrupts cb st2 acts4 tasks of
                                (st3, acts5) \<Rightarrow> (st3, acts5, Returned))))))"


text \<open>
  Reading a stream and a state snapshot: the chunks the agent yields, whether the loop
  runs to the end of the stream undisturbed, the reason left pending by a list of chunks,
  and the value the loop over the tasks leaves as the pending interrupt.
\<close>

fun yielded :: "stream_item list \<Rightarrow> chunk list" where
  "yielded [] = []"
| "yielded (Yield c # items) = c # yielded items"
| "yielded (_ # items) = yielded items"

fun undisturbed :: "stream_item list \<Rightarrow> bool" where
  "undisturbed [] = True"
| "undisturbed (Yield c # items) = undisturbed items"
| "undisturbed (_ # items) = False"

fun lastInterruptValue :: "jsval \<Rightarrow> task list \<Rightarrow> jsval" where
  "lastInterruptValue held [] = held"
| "lastInterruptValue held (Some (interruptValue # others) # tasks) = lastInterruptValue interruptValue tasks"
| "lastInterruptValue held (_ # tasks) = lastInterruptValue held tasks"


text \<open>The tasks of a state snapshot; none when the query failed or gave no tasks.\<close>

fun snapshotTasks :: "state_result \<Rightarrow> task list" where
  "snapshotTasks GetStateRejected = []"
| "snapshotTasks (GraphState None) = []"
| "snapshotTasks (GraphState (Some tasks)) = tasks"

text \<open>An agent state, chunks and turns to run the transform on.\<close>

definition agent_initial :: voice_agent_state where
  "agent_initial = \<lparr> threadId = ''thread-1'', pendingInterrupt = JUndefined, stopped = False \<rparr>"

definition all_callbacks :: agent_callbacks where
  "all_callbacks = \<lparr> hasOnInterrupt = True, hasOnHangUp = True \<rparr>"

definition aiChunk :: "string \<Rightarrow> chunk" where
  "aiChunk text = Object \<lparr> chunk_content = Some (JString text), chunk_tool_call_id = None,
                            chunk_name = None \<rparr>"

definition toolMessage :: "string \<Rightarrow> string \<Rightarrow> chunk" where
  "toolMessage name result =
     Object \<lparr> chunk_content = Some (JString result), chunk_tool_call_id = Some (JString ''call-1''),
              chunk_name = Some (JString name) \<rparr>"

definition turn :: "stream_item list \<Rightarrow> task list \<Rightarrow> turn_env" where
  "turn items tasks = \<lparr> agentStream = Stream items, agentGetState = GraphState (Some tasks) \<rparr>"

section \<open>Text-to-speech: the interrupt of the OpenAI and of the Hume adapter\<close>

text \<open>
  Both adapters keep a flag \<^verbatim>\<open>isInterrupted\<close> that \<^verbatim>\<open>interrupt()\<close> sets and that a
  timer, armed with \<^verbatim>\<open>setTimeout(..., 100)\<close>, clears again. Time is counted in
  milliseconds. An adapter is driven by what happens to it, each with the time at which
  it happens: \<^verbatim>\<open>interrupt()\<close> is called, a text arrives at the transform, the provider
  answers the request in flight with audio or with an error. A timer that is due fires
  before anything that happens at or after its time.
\<close>

datatype tts_event =
  InterruptCalled
| TextArrives string
| SpeechGenerated "byte list"
| SpeechFailed

text \<open>
  What an adapter does that can be seen from outside: the request to the provider, the
  audio chunks it enqueues, and the two callbacks.
\<close>

datatype tts_output =
  SpeechRequest string
| AudioChunk "byte list"
| InterruptNotified
| AudioCompleteNotified

definition cooldownMs :: nat where "cooldownMs = 100"

subsection \<open>The OpenAI adapter\<close>

record openai_tts_options =
  tts_sampleRate :: rat
  tts_hasOnInterrupt :: bool
  tts_hasOnAudioComplete :: bool

text \<open>
  The state: the flag, the times at which the armed timers are due, in the order they
  were armed, and whether a call of the transform is waiting for the provider (the
  stream hands the transform one text at a time).
\<close>

record openai_tts =
  isInterrupted :: bool
  timersDue :: "nat list"
  awaitingSpeech :: bool

definition openai_tts_initial :: openai_tts where
  "openai_tts_initial = \<lparr> isInterrupted = False, timersDue = [], awaitingSpeech = False \<rparr>"

text \<open>
  \<^verbatim>\<open>interrupt()\<close> of the OpenAI adapter: set the flag and arm a timer. There is no test
  of the flag before.
\<close>

definition openaiInterrupt :: "nat \<Rightarrow> openai_tts \<Rightarrow> openai_tts" where
  "openaiInterrupt now st =
     st\<lparr> isInterrupted := True, timersDue := timersDue st @ [now + cooldownMs] \<rparr>"

text \<open>The timers due by now fire, each clearing the flag.\<close>

fun fireDue :: "nat \<Rightarrow> bool \<Rightarrow> nat list \<Rightarrow> bool \<times> nat list" where
  "fireDue now flag [] = (flag, [])"
| "fireDue now flag (due # others) =
     (if due \<le> now then fireDue now False others else (flag, due # others))"

definition openaiFireTimers :: "nat \<Rightarrow> openai_tts \<Rightarrow> openai_tts" where
  "openaiFireTimers now st =
     (let (flag, timers) = fireDue now (isInterrupted st) (timersDue st)
      in st\<lparr> isInterrupted := flag, timersDue := timers \<rparr>)"

text \<open>
  \<^verbatim>\<open>streamChunks\<close>: slices of 4096 bytes; before each slice the interrupt check, which
  notifies and gives up. The loop does not yield, so the flag is the same at every check.
\<close>

definition chunkSize :: nat where "chunkSize = 4096"

function streamChunks :: "openai_tts_options \<Rightarrow> bool \<Rightarrow> byte list \<Rightarrow> nat \<Rightarrow> tts_output list \<times> bool" where
  "streamChunks opts interrupted buffer i =
     (if i < length buffer then
        (if interrupted
         then ((if tts_hasOnInterrupt opts then [InterruptNotified] else []), False)
         else (let chunk = take (min (i + chunkSize) (length buffer) - i) (drop i buffer);
                   (outs, completed) = streamChunks opts interrupted buffer (i + chunkSize)
               in (AudioChunk chunk # outs, completed)))
      else ([], True))"
  by pat_completeness auto
termination
  by (relation "measure (\<lambda>(opts, interrupted, buffer, i). length buffer - i)")
     (auto simp: chunkSize_def)

declare streamChunks.simps [simp del]

text \<open>
  The transform, in its two halves. When a text arrives: with the flag set, notify and
  drop the text; otherwise ask the provider. When the provider has answered: resample
  from 24 kHz, stream the chunks, and notify completion if the streaming ran to its
  end. An error of the provider or of the resampling is caught and logged.
\<close>

definition openaiSampleRate :: rat where "openaiSampleRate = 24000"

definition openaiHandle ::
  "openai_tts_options \<Rightarrow> nat \<Rightarrow> openai_tts \<Rightarrow> tts_event \<Rightarrow> openai_tts \<times> tts_output list" where
  "openaiHandle opts now st ev =
     (case ev of
        InterruptCalled \<Rightarrow> (openaiInterrupt now st, [])
      | TextArrives text \<Rightarrow>
          (if awaitingSpeech st then (st, [])
           else if isInterrupted st
           then (st, (if tts_hasOnInterrupt opts then [InterruptNotified] else []))
           else (st\<lparr> awaitingSpeech := True \<rparr>, [SpeechRequest text]))
      | SpeechFailed \<Rightarrow> (st\<lparr> awaitingSpeech := False \<rparr>, [])
      | SpeechGenerated rawBuffer \<Rightarrow>
          (if \<not> awaitingSpeech st then (st, [])
           else
             (case resamplePCM rawBuffer openaiSampleRate (tts_sampleRate opts) of
                Inl e \<Rightarrow> (st\<lparr> awaitingSpeech := False \<rparr>, [])
              | Inr resampledBuffer \<Rightarrow>
                  (let (outs, completed) = streamChunks opts (isInterrupted st) resampledBuffer 0
                   in (st\<lparr> awaitingSpeech := False \<rparr>,
                       outs @ (if completed \<and> tts_hasOnAudioComplete opts
                               then [AudioCompleteNotified] else []))))))"

text \<open>
  A run: what happens, in the order of the times given. A text that arrives while the
  transform is busy, and an answer of the provider when none is awaited, cannot occur and
  are passed over.
\<close>

fun openaiRun ::
  "openai_tts_options \<Rightarrow> openai_tts \<Rightarrow> (nat \<times> tts_event) list \<Rightarrow> openai_tts \<times> tts_output list" where
  "openaiRun opts st [] = (st, [])"
| "openaiRun opts st ((now, ev) # evs) =
     (let (st1, outs) = openaiHandle opts now (openaiFireTimers now st) ev;
          (st2, outs') = openaiRun opts st1 evs
      in (st2, outs @ outs'))"

definition openai_example_options :: openai_tts_options where
  "openai_example_options =
     \<lparr> tts_sampleRate = 16000, tts_hasOnInterrupt = True, tts_hasOnAudioComplete = True \<rparr>"

subsection \<open>The Hume adapter\<close>

text \<open>
  Of the Hume adapter, the variables \<^verbatim>\<open>interruptTTS\<close> reads and writes: the flag, whether
  there is a socket, a connection promise and a resolver of the close promise, and the
  timers. \<^verbatim>\<open>interruptTTS\<close> gives the new state and what it does outside: closing the
  socket and notifying.
\<close>

record hume_tts =
  hume_isInterrupted :: bool
  hume_ws :: bool
  hume_connectionPromise :: bool
  hume_closeResolve :: bool
  hume_timersDue :: "nat list"

datatype hume_effect = SocketClosed | ClosePromiseResolved | HumeInterruptNotified

definition interruptTTS :: "bool \<Rightarrow> nat \<Rightarrow> hume_tts \<Rightarrow> hume_tts \<times> hume_effect list" where
  "interruptTTS hasOnInterrupt_cb now st =
     (if hume_isInterrupted st then (st, [])
      else
        (st\<lparr> hume_isInterrupted := True, hume_ws := False, hume_connectionPromise := False,
              hume_closeResolve := False, hume_timersDue := hume_timersDue st @ [now + cooldownMs] \<rparr>,
         (if hume_ws st then [SocketClosed] else [])
         @ (if hume_closeResolve st then [ClosePromiseResolved] else [])
         @ (if hasOnInterrupt_cb then [HumeInterruptNotified] else [])))"

chapter \<open>Properties\<close>

section \<open>Properties of the \<mu>-law encoder\<close>

lemma seg_table: "list_all (\<lambda>k. (k = 0 \<and> SEGMENT_TABLE ! k = 0) \<or> (1 \<le> SEGMENT_TABLE ! k \<and> SEGMENT_TABLE ! k \<le> 7 \<and> 2 ^ (nat (SEGMENT_TABLE ! k) - 1) \<le> k \<and> k < 2 ^ nat (SEGMENT_TABLE ! k))) [0..<128]"
  by code_simp

lemma unpack: "list_all (\<lambda>x. NOT (NOT x AND 0xff) AND (0xff::int) = x) [0..255]"
  by code_simp

lemma fields: "list_all (\<lambda>s. list_all (\<lambda>e. list_all (\<lambda>m. 
   (let x = s OR push_bit 4 e OR m in x = s + 16 * e + m \<and> x AND 0x0f = m \<and> drop_bit 4 (x AND 0x70) = e \<and> x AND 0x80 = s)) [0..15]) [0..7]) [0, 128::int]"
  by code_simp

lemma biased_range: "132 \<le> mulawBiased s \<and> mulawBiased s \<le> 32767"
  by (simp add: mulawBiased_def MULAW_CLIP_def MULAW_BIAS_def Let_def)

lemma seg_index: assumes "0 \<le> a" "a \<le> 32767"
  shows "drop_bit 8 a AND 0x7f = a div 256" "nat (a div 256) < 128"
proof -
  have "a div 256 < 128" "0 \<le> a div 256" using assms by simp_all
  then show "nat (a div 256) < 128" by simp
  have "drop_bit 8 a AND 0x7f = take_bit 7 (a div 256)"
    by (simp add: drop_bit_eq_div take_bit_eq_mask mask_eq_exp_minus_1)
  also have "\<dots> = a div 256" using \<open>a div 256 < 128\<close> \<open>0 \<le> a div 256\<close>
    by (simp add: take_bit_eq_mod)
  finally show "drop_bit 8 a AND 0x7f = a div 256" .
qed

lemma seg_bounds:
  assumes "132 \<le> a" "a \<le> 32767"
  defines "e \<equiv> SEGMENT_TABLE ! nat (drop_bit 8 a AND 0x7f)"
  shows "0 \<le> e \<and> e \<le> 7 \<and> 2 ^ (nat e + 7) \<le> a \<and> a < 2 ^ (nat e + 8)"
proof -
  define k where "k = nat (a div 256)"
  have k: "k < 128" "drop_bit 8 a AND 0x7f = int k"
    using seg_index[of a] assms by (simp_all add: k_def)
  have e: "e = SEGMENT_TABLE ! k" by (simp add: e_def k)
  have "k \<in> set [0..<128]" using k by simp
  with seg_table have P: "(k = 0 \<and> e = 0) \<or> (1 \<le> e \<and> e \<le> 7 \<and> 2 ^ (nat e - 1) \<le> k \<and> k < 2 ^ nat e)"
    unfolding list_all_iff e by blast
  have ik: "int k = a div 256" using assms by (simp add: k_def)
  have ak: "256 * int k \<le> a" "a < 256 * int k + 256"
    unfolding ik by presburger+
  show ?thesis
  proof (cases "k = 0")
    case True
    with P have "e = 0" by auto
    with ak True assms show ?thesis by simp
  next
    case False
    with P have Q: "1 \<le> e" "e \<le> 7" "2 ^ (nat e - 1) \<le> k" "k < 2 ^ nat e" by auto
    obtain n where n: "nat e = Suc n" using Q(1) by (cases "nat e") auto
    have A: "(2::int) ^ (nat e + 7) = 256 * 2 ^ n" by (simp add: n power_add)
    have B: "(2::int) ^ n \<le> int k" using Q(3) n
      by (metis diff_Suc_1 of_nat_le_iff of_nat_numeral of_nat_power)
    have C: "int k + 1 \<le> 2 ^ nat e" using Q(4)
      by (metis Suc_leI of_nat_Suc of_nat_le_iff of_nat_numeral of_nat_power add.commute)
    have D: "(2::int) ^ (nat e + 8) = 256 * 2 ^ nat e" by (simp add: power_add)
    have "2 ^ (nat e + 7) \<le> a" unfolding A using B ak(1) by linarith
    moreover have "a < 2 ^ (nat e + 8)" unfolding D using C ak(2) by linarith
    ultimately show ?thesis using Q(1,2) by simp
  qed
qed


lemma mantissa_bounds:
  fixes a :: int
  assumes "2 ^ (n + 7) \<le> a" "a < 2 ^ (n + 8)"
  defines "m \<equiv> drop_bit (n + 3) a AND 0x0f"
  shows "0 \<le> m \<and> m \<le> 15 \<and> (16 + m) * 2 ^ (n + 3) \<le> a \<and> a < (17 + m) * 2 ^ (n + 3)"
proof -
  define p :: int where "p = 2 ^ (n + 3)"
  define q where "q = a div p"
  define r where "r = a mod p"
  have p: "0 < p" by (simp add: p_def)
  have lo: "16 * p \<le> a" using assms(1) by (simp add: p_def power_add)
  have hi: "a < 32 * p" using assms(2) by (simp add: p_def power_add)
  have a: "a = q * p + r" by (simp add: q_def r_def)
  have r: "0 \<le> r" "r < p" using p by (simp_all add: r_def)
  have "16 \<le> q" 
  proof (rule ccontr)
    assume "\<not> 16 \<le> q"
    then have "q + 1 \<le> 16" by simp
    then have "(q + 1) * p \<le> 16 * p" using p by (simp only: mult_right_mono less_imp_le)
    moreover have "(q + 1) * p = q * p + p" by (simp add: algebra_simps)
    ultimately show False using a r lo by linarith
  qed
  moreover have "q < 32"
  proof (rule ccontr)
    assume "\<not> q < 32"
    then have "32 \<le> q" by simp
    then have "32 * p \<le> q * p" using p by (simp only: mult_right_mono less_imp_le)
    then show False using a r hi by linarith
  qed
  moreover have "m = q mod 16"
  proof -
    have "x AND 0x0f = take_bit 4 x" for x :: int
      by (simp add: take_bit_eq_mask mask_eq_exp_minus_1)
    then show ?thesis
      by (simp add: m_def drop_bit_eq_div q_def p_def take_bit_eq_mod)
  qed
  ultimately have m: "m = q - 16" by presburger
  have m1: "0 \<le> m" "m \<le> 15" using m \<open>16 \<le> q\<close> \<open>q < 32\<close> by simp_all
  have e1: "(16 + m) * p = q * p" unfolding m by (simp add: algebra_simps)
  have e2: "(17 + m) * p = q * p + p" unfolding m by (simp add: algebra_simps)
  have "(16 + m) * p \<le> a" unfolding e1 using a r by linarith
  moreover have "a < (17 + m) * p" unfolding e2 using a r by linarith
  ultimately show ?thesis using m1 by (simp add: p_def)
qed


lemma decode_pack:
  assumes "s = 0 \<or> s = 128" "0 \<le> e" "e \<le> 7" "0 \<le> m" "m \<le> 15"
  shows "ulaw2linear (NOT (s OR push_bit 4 e OR m) AND 0xff) =
           (if s \<noteq> 0 then 0x84 - (8 * m + 132) * 2 ^ nat e else (8 * m + 132) * 2 ^ nat e - 0x84)"
proof -
  define x where "x = s OR push_bit 4 e OR m"
  have "s \<in> set [0, 128]" "e \<in> set [0..7]" "m \<in> set [0..15]" using assms by auto
  with fields have F: "x = s + 16 * e + m" "x AND 0x0f = m" "drop_bit 4 (x AND 0x70) = e" "x AND 0x80 = s"
    unfolding list_all_iff x_def Let_def by blast+
  have "x \<in> set [0..255]" using F(1) assms by auto
  with unpack have U: "NOT (NOT x AND 0xff) AND 0xff = x"
    unfolding list_all_iff by blast
  show ?thesis
    unfolding x_def[symmetric] ulaw2linear_def Let_def U F(2,3,4)
    by (simp add: push_bit_eq_mult algebra_simps)
qed


text \<open>
  The repository's own decoding table is the standard 16-bit expansion divided by four.
\<close>

lemma MULAW_TO_LINEAR_quarter_scale:
  "list_all (\<lambda>c. ulaw2linear c = 4 * MULAW_TO_LINEAR c) [0..255]"
  by code_simp

text \<open>
  Claim C9. Take any sample and clip its magnitude at 32635. Its segment is the one of
  the eight whose range, from \<open>2 ^ (e + 7)\<close> up to \<open>2 ^ (e + 8)\<close>, holds the clipped
  magnitude plus the bias 132; the segment has sixteen quantisation steps of width
  \<open>2 ^ (e + 3)\<close>. The encoder finds that segment, and expanding its code with the standard
  law gives back the clipped sample up to half a step, \<open>2 ^ (e + 2)\<close>. So a sample of
  magnitude at most 32635 comes back within half a step of itself, and a larger one within
  half a step of 32635 or -32635.
\<close>

theorem mulaw_roundtrip:
  "\<bar>ulaw2linear (linearToMulaw s) - max (- 32635) (min 32635 s)\<bar> \<le> 2 ^ (nat (mulawSegment s) + 2)
   \<and> 0 \<le> mulawSegment s \<and> mulawSegment s \<le> 7
   \<and> 2 ^ (nat (mulawSegment s) + 7) \<le> min \<bar>s\<bar> 32635 + 132
   \<and> min \<bar>s\<bar> 32635 + 132 < 2 ^ (nat (mulawSegment s) + 8)"
proof -
  define a where "a = mulawBiased s"
  define e where "e = mulawSegment s"
  define n where "n = nat e"
  define m where "m = drop_bit (n + 3) a AND 0x0f"
  have ar: "132 \<le> a" "a \<le> 32767" using biased_range[of s] by (simp_all add: a_def)
  have eb: "0 \<le> e" "e \<le> 7" "2 ^ (n + 7) \<le> a" "a < 2 ^ (n + 8)"
    using seg_bounds[OF ar] by (simp_all add: e_def n_def mulawSegment_def a_def)
  have mb: "0 \<le> m" "m \<le> 15" "(16 + m) * 2 ^ (n + 3) \<le> a" "a < (17 + m) * 2 ^ (n + 3)"
    using mantissa_bounds[OF eb(3,4)] by (simp_all add: m_def)
  have sg: "mulawSign s = 0 \<or> mulawSign s = 128" by (simp add: mulawSign_def)
  have enc: "linearToMulaw s = NOT (mulawSign s OR push_bit 4 e OR m) AND 0xff"
    by (simp add: linearToMulaw_def Let_def e_def m_def n_def a_def)
  define t where "t = (8 * m + 132) * 2 ^ n"
  have dec: "ulaw2linear (linearToMulaw s) = (if s < 0 then 0x84 - t else t - 0x84)"
    unfolding enc decode_pack[OF sg eb(1,2) mb(1,2)] t_def n_def
    by (simp add: mulawSign_def)
  have clip: "max (- 32635) (min 32635 s) = (if s < 0 then 0x84 - a else a - 0x84)"
    by (simp add: a_def mulawBiased_def MULAW_CLIP_def MULAW_BIAS_def Let_def)
  have mag: "min \<bar>s\<bar> 32635 + 132 = a"
    by (simp add: a_def mulawBiased_def MULAW_CLIP_def MULAW_BIAS_def Let_def)
  have t1: "t = (16 + m) * 2 ^ (n + 3) + 2 ^ (n + 2)"
    by (simp add: t_def power_add algebra_simps)
  have t2: "(17 + m) * 2 ^ (n + 3) = (16 + m) * 2 ^ (n + 3) + 2 * 2 ^ (n + 2)"
    by (simp add: power_add algebra_simps)
  have "\<bar>t - a\<bar> \<le> 2 ^ (n + 2)"
    using mb(3,4) unfolding t1 t2 by linarith
  then have "\<bar>ulaw2linear (linearToMulaw s) - max (- 32635) (min 32635 s)\<bar> \<le> 2 ^ (n + 2)"
    unfolding dec clip by (simp add: abs_minus_commute)
  then show ?thesis using eb unfolding mag e_def[symmetric] n_def[symmetric] by simp
qed


theorem mulaw_roundtrip_witness:
  "ulaw2linear (linearToMulaw 1000) = 988 \<and> mulawSegment 1000 = 3
   \<and> \<bar>ulaw2linear (linearToMulaw 1000) - max (- 32635) (min 32635 1000)\<bar> \<le> 2 ^ (nat (mulawSegment 1000) + 2)
   \<and> 2 ^ (nat (mulawSegment 1000) + 7) \<le> min \<bar>1000 :: int\<bar> 32635 + 132
   \<and> min \<bar>1000 :: int\<bar> 32635 + 132 < 2 ^ (nat (mulawSegment 1000) + 8)"
proof -
  have v: "ulaw2linear (linearToMulaw 1000) = 988" "mulawSegment 1000 = 3" by code_simp+
  show ?thesis using mulaw_roundtrip [of 1000] v by simp
qed

section \<open>Properties of the resampler\<close>



lemma pow2_strict_mono: "a < b \<Longrightarrow> power_int (2::rat) a < power_int 2 b"
  by (rule power_int_strict_increasing) simp_all



































text \<open>
  Claim C8. Resampling from a rate to that same rate returns the input buffer, byte for
  byte, whatever the buffer and the rate.
\<close>

theorem resamplePCM_same_rate: "resamplePCM input r r = Inr input"
  by (simp add: resamplePCM_def)

theorem resamplePCM_same_rate_witness:
  "resamplePCM [1, 0, 255, 127, 7] 16000 16000 = Inr [1, 0, 255, 127, 7]"
  by (rule resamplePCM_same_rate)



section \<open>Properties of the voice activity detector\<close>

text \<open>Unfolding the framing of a byte stream by one frame.\<close>

lemma framesOf_step: "0 < n \<Longrightarrow> n \<le> length bs \<Longrightarrow> framesOf n bs = take n bs # framesOf n (drop n bs)"
  by (subst framesOf.simps) simp

lemma framesOf_stop: "\<not> (0 < n \<and> n \<le> length bs) \<Longrightarrow> framesOf n bs = []"
  by (subst framesOf.simps) simp

lemma restOf_step: "0 < n \<Longrightarrow> n \<le> length bs \<Longrightarrow> restOf n bs = restOf n (drop n bs)"
  by (subst restOf.simps) simp

lemma restOf_stop: "\<not> (0 < n \<and> n \<le> length bs) \<Longrightarrow> restOf n bs = bs"
  by (subst restOf.simps) auto

text \<open>
  \<^verbatim>\<open>processFrame\<close> neither reads nor writes the bytes held over between chunks, so the
  chunk-wise transform runs the detector on the frames of the concatenated stream.
\<close>

lemma processFrame_pending:
  "processFrame cfg (st\<lparr>pendingBytes := p\<rparr>) frame =
     (let (st', res) = processFrame cfg st frame in (st'\<lparr>pendingBytes := p\<rparr>, res))"
  by (simp add: processFrame_def Let_def)

lemma processFrames_pending:
  "processFrames cfg (st\<lparr>pendingBytes := p\<rparr>) frames =
     (let (st', ress) = processFrames cfg st frames in (st'\<lparr>pendingBytes := p\<rparr>, ress))"
proof (induction frames arbitrary: st)
  case Nil
  show ?case by simp
next
  case (Cons f fs)
  obtain s1 r1 where s1: "processFrame cfg st f = (s1, r1)" by (cases "processFrame cfg st f")
  obtain s2 r2 where s2: "processFrames cfg s1 fs = (s2, r2)" by (cases "processFrames cfg s1 fs")
  show ?case using Cons.IH[of s1] s1 s2 by (simp add: processFrame_pending)
qed

lemma framesOf_append:
  "framesOf n (xs @ ys) = framesOf n xs @ framesOf n (restOf n xs @ ys)"
proof (induction n xs rule: framesOf.induct)
  case (1 n bytes)
  show ?case
  proof (cases "0 < n \<and> n \<le> length bytes")
    case True
    then have "framesOf n (bytes @ ys) = take n bytes # framesOf n (drop n bytes @ ys)"
      by (simp add: framesOf_step[of n "bytes @ ys"])
    also have "\<dots> = take n bytes # (framesOf n (drop n bytes) @ framesOf n (restOf n (drop n bytes) @ ys))"
      using "1.IH"[OF True] by simp
    also have "\<dots> = framesOf n bytes @ framesOf n (restOf n bytes @ ys)"
      using True by (simp add: framesOf_step[of n bytes] restOf_step[of n bytes])
    finally show ?thesis .
  next
    case False
    then show ?thesis by (simp add: framesOf_stop[of n bytes] restOf_stop[of n bytes])
  qed
qed

lemma restOf_append:
  "restOf n (xs @ ys) = restOf n (restOf n xs @ ys)"
proof (induction n xs rule: restOf.induct)
  case (1 n bytes)
  show ?case
  proof (cases "0 < n \<and> n \<le> length bytes")
    case True
    then have "restOf n (bytes @ ys) = restOf n (drop n bytes @ ys)"
      by (simp add: restOf_step[of n "bytes @ ys"])
    also have "\<dots> = restOf n (restOf n (drop n bytes) @ ys)"
      using "1.IH"[OF True] by simp
    also have "\<dots> = restOf n (restOf n bytes @ ys)"
      using True by (simp add: restOf_step[of n bytes])
    finally show ?thesis .
  next
    case False
    then show ?thesis by (simp add: restOf_stop[of n bytes])
  qed
qed


lemma restOf_short: "0 < n \<Longrightarrow> length (restOf n bs) < n"
proof (induction n bs rule: restOf.induct)
  case (1 n bytes)
  show ?case
  proof (cases "n \<le> length bytes")
    case True
    then show ?thesis using 1 by (simp add: restOf_step[of n bytes])
  next
    case False
    then show ?thesis by (simp add: restOf_stop[of n bytes])
  qed
qed

lemma processFrames_append:
  "processFrames cfg st (fs1 @ fs2) =
     (let (s1, r1) = processFrames cfg st fs1;
          (s2, r2) = processFrames cfg s1 fs2
      in (s2, r1 @ r2))"
proof (induction fs1 arbitrary: st)
  case Nil
  show ?case by (simp split: prod.splits)
next
  case (Cons f fs)
  show ?case by (simp add: Cons.IH split: prod.splits)
qed

lemma transformLoop_frames:
  assumes "0 < bytesPerFrame cfg"
  shows "transformLoop cfg cmb offset st evs =
     (let (st', ress) = processFrames cfg st (framesOf (bytesPerFrame cfg) (drop offset cmb))
      in (st'\<lparr>pendingBytes := restOf (bytesPerFrame cfg) (drop offset cmb)\<rparr>,
          evs @ concat (map (resultEvents cfg) ress)))"
  using assms
proof (induction cfg cmb offset st evs rule: transformLoop.induct)
  case (1 cfg cmb offset st evs)
  define n where "n = bytesPerFrame cfg"
  have n: "0 < n" using "1.prems" by (simp add: n_def)
  show ?case
  proof (cases "offset + n \<le> length cmb")
    case True
    define frame where "frame = take n (drop offset cmb)"
    obtain s1 r1 where s1: "processFrame cfg st frame = (s1, r1)" by (cases "processFrame cfg st frame")
    have hf: "handleFrame cfg st frame = (s1, resultEvents cfg r1)"
      by (simp add: handleFrame_def s1)
    have step: "transformLoop cfg cmb offset st evs =
                  transformLoop cfg cmb (offset + n) s1 (evs @ resultEvents cfg r1)"
      using True n hf by (subst transformLoop.simps) (simp add: n_def[symmetric] frame_def[symmetric])
    have IH: "transformLoop cfg cmb (offset + n) s1 (evs @ resultEvents cfg r1) =
       (let (st', ress) = processFrames cfg s1 (framesOf n (drop (offset + n) cmb))
        in (st'\<lparr>pendingBytes := restOf n (drop (offset + n) cmb)\<rparr>,
            (evs @ resultEvents cfg r1) @ concat (map (resultEvents cfg) ress)))"
    proof -
      have c: "0 < bytesPerFrame cfg \<and> offset + bytesPerFrame cfg \<le> length cmb"
        using True n by (simp add: n_def)
      show ?thesis
        using "1.IH"[OF c frame_def[unfolded n_def] refl hf[symmetric] "1.prems"]
        by (simp add: n_def[symmetric])
    qed
    have len: "n \<le> length (drop offset cmb)" using True by simp
    have d: "drop n (drop offset cmb) = drop (offset + n) cmb" by (simp add: add.commute)
    have fo: "framesOf n (drop offset cmb) = frame # framesOf n (drop (offset + n) cmb)"
      using framesOf_step[OF n len] unfolding d by (simp add: frame_def)
    have ro: "restOf n (drop offset cmb) = restOf n (drop (offset + n) cmb)"
      using restOf_step[OF n len] unfolding d by simp
    show ?thesis unfolding step IH n_def[symmetric] fo ro
      by (simp add: s1 split: prod.splits)
  next
    case False
    then have stop: "transformLoop cfg cmb offset st evs = (st\<lparr>pendingBytes := drop offset cmb\<rparr>, evs)"
      by (subst transformLoop.simps) (simp add: n_def)
    have "\<not> (0 < n \<and> n \<le> length (drop offset cmb))" using False n by simp
    then show ?thesis unfolding stop n_def[symmetric]
      by (simp add: framesOf_stop restOf_stop)
  qed
qed

lemma transformAll_frames:
  assumes "0 < bytesPerFrame cfg" "length (pendingBytes st) < bytesPerFrame cfg"
  shows "transformAll cfg st chunks =
     (let bytes = pendingBytes st @ concat chunks;
          (st', ress) = processFrames cfg st (framesOf (bytesPerFrame cfg) bytes)
      in Some (st'\<lparr>pendingBytes := restOf (bytesPerFrame cfg) bytes\<rparr>,
               concat (map (resultEvents cfg) ress)))"
  using assms
proof (induction chunks arbitrary: st)
  case Nil
  then show ?case by (simp add: framesOf_stop restOf_stop)
next
  case (Cons chunk chunks)
  define n where "n = bytesPerFrame cfg"
  define b1 where "b1 = pendingBytes st @ chunk"
  obtain s1 r1 where s1: "processFrames cfg st (framesOf n b1) = (s1, r1)"
    by (cases "processFrames cfg st (framesOf n b1)")
  define s1' where "s1' = s1\<lparr>pendingBytes := restOf n b1\<rparr>"
  have t1: "transform cfg st chunk = Some (s1', concat (map (resultEvents cfg) r1))"
    using Cons.prems(1) transformLoop_frames[OF Cons.prems(1), of "pendingBytes st @ chunk" 0 st "[]"]
    by (simp add: transform_def n_def[symmetric] b1_def[symmetric] s1 s1'_def)
  have p1: "pendingBytes s1' = restOf n b1" by (simp add: s1'_def)
  have short: "length (pendingBytes s1') < bytesPerFrame cfg"
    using restOf_short[of n b1] Cons.prems(1) by (simp add: p1 n_def)
  obtain s2 r2 where s2: "processFrames cfg s1 (framesOf n (restOf n b1 @ concat chunks)) = (s2, r2)"
    by (cases "processFrames cfg s1 (framesOf n (restOf n b1 @ concat chunks))")
  have s2': "processFrames cfg s1' (framesOf n (restOf n b1 @ concat chunks)) = (s2\<lparr>pendingBytes := restOf n b1\<rparr>, r2)"
    unfolding s1'_def processFrames_pending by (simp add: s2)
  have IH: "transformAll cfg s1' chunks =
      Some (s2\<lparr>pendingBytes := restOf n (restOf n b1 @ concat chunks)\<rparr>, concat (map (resultEvents cfg) r2))"
    using Cons.IH[OF Cons.prems(1) short] by (simp add: p1 n_def[symmetric] s2')
  have all: "pendingBytes st @ concat (chunk # chunks) = b1 @ concat chunks" by (simp add: b1_def)
  have fr: "processFrames cfg st (framesOf n (b1 @ concat chunks)) = (s2, r1 @ r2)"
    by (simp add: framesOf_append[of n b1] processFrames_append s1 s2)
  show ?case
    unfolding all n_def[symmetric] Let_def fr
    by (simp add: t1 IH restOf_append[of n b1])
qed


text \<open>While idle, bursts shorter than the threshold leave the detector idle and silent.\<close>

lemma longestSpeechRun_ge: "cur \<le> longestSpeechRun cfg cur frames"
proof (induction frames arbitrary: cur)
  case Nil
  show ?case by simp
next
  case (Cons f fs)
  show ?case using Cons.IH[of "cur + 1"] by simp
qed

lemma processFrame_idle_quiet:
  assumes "\<not> isSpeaking st" "\<not> isSpeech cfg f"
  shows "processFrame cfg st f =
           (st\<lparr>speechFrameCount := 0\<rparr>,
            \<lparr>speechStartFired = False, speechEnded = False, audioData = None\<rparr>)"
  using assms by (simp add: processFrame_def)

lemma processFrame_idle_debounce:
  assumes "\<not> isSpeaking st" "isSpeech cfg f" "speechFrameCount st + 1 < minSpeechFrames"
  shows "processFrame cfg st f =
           (st\<lparr>silenceFrameCount := 0, speechFrameCount := speechFrameCount st + 1\<rparr>,
            \<lparr>speechStartFired = False, speechEnded = False, audioData = None\<rparr>)"
  using assms by (simp add: processFrame_def Let_def)

lemma resultEvents_nothing:
  "resultEvents cfg \<lparr>speechStartFired = False, speechEnded = False, audioData = None\<rparr> = []"
  by (simp add: resultEvents_def)

lemma idle_short_bursts:
  assumes "\<not> isSpeaking st"
    and "longestSpeechRun cfg (speechFrameCount st) frames < minSpeechFrames"
    and "processFrames cfg st frames = (st', ress)"
  shows "\<not> isSpeaking st' \<and> audioBuffer st' = audioBuffer st
         \<and> speechStartSignaled st' = speechStartSignaled st
         \<and> concat (map (resultEvents cfg) ress) = []"
  using assms
proof (induction frames arbitrary: st st' ress)
  case Nil
  then show ?case by auto
next
  case (Cons f fs)
  obtain s2 r2 where s2: "processFrames cfg (fst (processFrame cfg st f)) fs = (s2, r2)"
    by (cases "processFrames cfg (fst (processFrame cfg st f)) fs")
  show ?case
  proof (cases "isSpeech cfg f")
    case True
    have run: "longestSpeechRun cfg (speechFrameCount st + 1) fs < minSpeechFrames"
      using Cons.prems(2) True by simp
    then have small: "speechFrameCount st + 1 < minSpeechFrames"
      using longestSpeechRun_ge[of "speechFrameCount st + 1" cfg fs] by simp
    note pf = processFrame_idle_debounce[OF Cons.prems(1) True small]
    have "\<not> isSpeaking s2 \<and> audioBuffer s2 = audioBuffer (fst (processFrame cfg st f))
         \<and> speechStartSignaled s2 = speechStartSignaled (fst (processFrame cfg st f))
         \<and> concat (map (resultEvents cfg) r2) = []"
      by (rule Cons.IH[OF _ _ s2]) (use Cons.prems(1) run in \<open>simp_all add: pf\<close>)
    moreover have "st' = s2" "ress = snd (processFrame cfg st f) # r2"
      using Cons.prems(3) s2 by (simp_all add: pf)
    ultimately show ?thesis by (simp add: pf resultEvents_nothing)
  next
    case False
    have run: "longestSpeechRun cfg 0 fs < minSpeechFrames"
      using Cons.prems(2) False by simp
    note pf = processFrame_idle_quiet[OF Cons.prems(1) False]
    have "\<not> isSpeaking s2 \<and> audioBuffer s2 = audioBuffer (fst (processFrame cfg st f))
         \<and> speechStartSignaled s2 = speechStartSignaled (fst (processFrame cfg st f))
         \<and> concat (map (resultEvents cfg) r2) = []"
      by (rule Cons.IH[OF _ _ s2]) (use Cons.prems(1) run in \<open>simp_all add: pf\<close>)
    moreover have "st' = s2" "ress = snd (processFrame cfg st f) # r2"
      using Cons.prems(3) s2 by (simp_all add: pf)
    ultimately show ?thesis by (simp add: pf resultEvents_nothing)
  qed
qed

text \<open>
  One frame produces at most one event; a speech start takes the detector from idle to
  speaking, and only the end of an utterance takes it back.
\<close>

lemma processFrame_cases:
  assumes "processFrame cfg st f = (st', res)"
  shows "(resultEvents cfg res = [] \<and> (isSpeaking st \<longrightarrow> isSpeaking st'))
       \<or> (resultEvents cfg res = [SpeechStart] \<and> \<not> isSpeaking st \<and> isSpeaking st')
       \<or> (\<exists>a. resultEvents cfg res = [SkippedTooShort a])
       \<or> (\<exists>a. resultEvents cfg res = [SentToWhisper a])"
proof (cases "isSpeech cfg f")
  case True
  then show ?thesis using assms
    by (auto simp: processFrame_def resultEvents_def Let_def split: if_splits)
next
  case False
  show ?thesis
  proof (cases "isSpeaking st")
    case True
    then show ?thesis using assms False
      by (auto simp: processFrame_def resultEvents_def Let_def split: if_splits)
  next
    case idle: False
    then show ?thesis using assms False
      by (auto simp: processFrame_def resultEvents_def)
  qed
qed

lemma starts_alternate:
  assumes "seen \<longrightarrow> isSpeaking st" "processFrames cfg st frames = (st', ress)"
  shows "startsAlternate seen (concat (map (resultEvents cfg) ress))"
  using assms
proof (induction frames arbitrary: st st' ress seen)
  case Nil
  then show ?case by auto
next
  case (Cons f fs)
  obtain s1 r1 where s1: "processFrame cfg st f = (s1, r1)" by (cases "processFrame cfg st f")
  obtain s2 r2 where s2: "processFrames cfg s1 fs = (s2, r2)" by (cases "processFrames cfg s1 fs")
  have ress: "ress = r1 # r2" using Cons.prems(2) s1 s2 by simp
  note IH = Cons.IH[OF _ s2]
  consider (none) "resultEvents cfg r1 = []" "isSpeaking st \<longrightarrow> isSpeaking s1"
    | (start) "resultEvents cfg r1 = [SpeechStart]" "\<not> isSpeaking st" "isSpeaking s1"
    | (skip) a where "resultEvents cfg r1 = [SkippedTooShort a]"
    | (sent) a where "resultEvents cfg r1 = [SentToWhisper a]"
    using processFrame_cases[OF s1] by blast
  then show ?case
  proof cases
    case none
    then show ?thesis using IH[of seen] Cons.prems(1) by (simp add: ress)
  next
    case start
    then show ?thesis using IH[of True] Cons.prems(1) by (simp add: ress)
  next
    case skip
    then show ?thesis using IH[of False] by (simp add: ress)
  next
    case sent
    then show ?thesis using IH[of False] by (simp add: ress)
  qed
qed

text \<open>An idle detector has an empty utterance buffer.\<close>

lemma processFrame_idle_buffer:
  assumes "\<not> isSpeaking st \<longrightarrow> audioBuffer st = []"
  shows "\<not> isSpeaking (fst (processFrame cfg st f)) \<longrightarrow> audioBuffer (fst (processFrame cfg st f)) = []"
  using assms by (auto simp: processFrame_def Let_def split: if_splits)

lemma processFrames_idle_buffer:
  assumes "\<not> isSpeaking st \<longrightarrow> audioBuffer st = []"
  shows "\<not> isSpeaking (fst (processFrames cfg st frames)) \<longrightarrow> audioBuffer (fst (processFrames cfg st frames)) = []"
  using assms
proof (induction frames arbitrary: st)
  case Nil
  then show ?case by simp
next
  case (Cons f fs)
  show ?case
    using Cons.IH[OF processFrame_idle_buffer[OF Cons.prems, of cfg f]]
    by (auto split: prod.splits)
qed


text \<open>
  Claim C3. Feed the adapter any stream of chunks, with a frame size that is not zero.
  The events it produces never contain two \<open>SpeechStart\<close> without the end of an
  utterance between them: the callback fires at most once per utterance. And when the
  frames of the stream contain no run of \<open>minSpeechFrames\<close> consecutive speech frames, the
  adapter produces no event at all: no speech start, and no utterance, neither sent to
  the transcription model nor skipped; it ends idle with an empty buffer.
\<close>

theorem vad_short_bursts_and_single_start:
  assumes "0 < bytesPerFrame cfg"
  shows "(\<exists>st evs. transformAll cfg vad_initial chunks = Some (st, evs) \<and> startsAlternate False evs)
       \<and> (longestSpeechRun cfg 0 (framesOf (bytesPerFrame cfg) (concat chunks)) < minSpeechFrames \<longrightarrow>
             (\<exists>st. transformAll cfg vad_initial chunks = Some (st, []) \<and> \<not> isSpeaking st
                   \<and> audioBuffer st = []))"
proof -
  define frames where "frames = framesOf (bytesPerFrame cfg) (concat chunks)"
  obtain s r where sr: "processFrames cfg vad_initial frames = (s, r)"
    by (cases "processFrames cfg vad_initial frames")
  have run: "transformAll cfg vad_initial chunks =
        Some (s\<lparr>pendingBytes := restOf (bytesPerFrame cfg) (concat chunks)\<rparr>,
              concat (map (resultEvents cfg) r))"
    using transformAll_frames[OF assms, of vad_initial chunks] assms sr
    by (simp add: vad_initial_def frames_def)
  have alt: "startsAlternate False (concat (map (resultEvents cfg) r))"
    by (rule starts_alternate[OF _ sr]) simp
  have quiet: "\<not> isSpeaking s \<and> audioBuffer s = [] \<and> concat (map (resultEvents cfg) r) = []"
    if "longestSpeechRun cfg 0 frames < minSpeechFrames"
    using idle_short_bursts[of vad_initial cfg frames s r] that sr by (simp add: vad_initial_def)
  show ?thesis unfolding frames_def[symmetric] run using alt quiet by auto
qed

theorem vad_short_bursts_and_single_start_witness:
  "0 < bytesPerFrame vad_example_config
   \<and> longestSpeechRun vad_example_config 0
        (framesOf (bytesPerFrame vad_example_config)
           (concat [loudFrame 1 @ loudFrame 2 @ [3], [64, 0, 64] @ quietFrame @ loudFrame 4])) < minSpeechFrames
   \<and> (\<exists>st. transformAll vad_example_config vad_initial
              [loudFrame 1 @ loudFrame 2 @ [3], [64, 0, 64] @ quietFrame @ loudFrame 4] = Some (st, [])
           \<and> \<not> isSpeaking st \<and> audioBuffer st = [])"
proof -
  have h: "0 < bytesPerFrame vad_example_config" by code_simp
  have r: "longestSpeechRun vad_example_config 0
        (framesOf (bytesPerFrame vad_example_config)
           (concat [loudFrame 1 @ loudFrame 2 @ [3], [64, 0, 64] @ quietFrame @ loudFrame 4])) < minSpeechFrames"
    by code_simp
  show ?thesis
    using vad_short_bursts_and_single_start[OF h,
        of "[loudFrame 1 @ loudFrame 2 @ [3], [64, 0, 64] @ quietFrame @ loudFrame 4]"] h r
    by blast
qed

text \<open>
  Claim C4, as stated, fails. Four loud frames in a row take the detector from idle to
  speaking on the fourth; the buffer then holds the fourth frame only, and the utterance
  that is flushed after the closing silence starts with it. The first three frames, which
  were counted towards the threshold, are in neither.
\<close>

theorem vad_debounce_frames_not_buffered:
  "\<not> isSpeaking (fst (processFrames vad_example_config vad_initial
                        [loudFrame 1, loudFrame 2, loudFrame 3]))
   \<and> isSpeaking (fst (processFrames vad_example_config vad_initial
                        [loudFrame 1, loudFrame 2, loudFrame 3, loudFrame 4]))
   \<and> audioBuffer (fst (processFrames vad_example_config vad_initial
                        [loudFrame 1, loudFrame 2, loudFrame 3, loudFrame 4])) = [loudFrame 4]
   \<and> loudFrame 1 \<notin> set (audioBuffer (fst (processFrames vad_example_config vad_initial
                        [loudFrame 1, loudFrame 2, loudFrame 3, loudFrame 4])))
   \<and> transformAll vad_example_config vad_initial
        [loudFrame 1 @ loudFrame 2 @ loudFrame 3 @ loudFrame 4 @ quietFrame @ quietFrame]
      = Some (vad_initial, [SpeechStart, SentToWhisper (loudFrame 4 @ quietFrame @ quietFrame)])"
  by code_simp

text \<open>
  While the detector is speaking every frame is appended to the utterance buffer, and the
  frame that ends the utterance is returned with the buffer, as its last frame.
\<close>

lemma processFrame_speaking:
  assumes "isSpeaking st"
  shows "\<not> speechEnded (snd (processFrame cfg st f)) \<Longrightarrow>
           isSpeaking (fst (processFrame cfg st f))
           \<and> audioBuffer (fst (processFrame cfg st f)) = audioBuffer st @ [f]"
    and "speechEnded (snd (processFrame cfg st f)) \<Longrightarrow>
           audioData (snd (processFrame cfg st f)) = Some (concat (audioBuffer st @ [f]))
           \<and> \<not> isSpeaking (fst (processFrame cfg st f))
           \<and> audioBuffer (fst (processFrame cfg st f)) = []"
  using assms by (auto simp: processFrame_def Let_def split: if_splits)

lemma processFrames_speaking:
  assumes "isSpeaking st" "list_all (\<lambda>res. \<not> speechEnded res) (snd (processFrames cfg st fs))"
  shows "isSpeaking (fst (processFrames cfg st fs))
         \<and> audioBuffer (fst (processFrames cfg st fs)) = audioBuffer st @ fs"
  using assms
proof (induction fs arbitrary: st)
  case Nil
  then show ?case by simp
next
  case (Cons f fs)
  obtain st1 res where p: "processFrame cfg st f = (st1, res)" by (cases "processFrame cfg st f")
  obtain st2 ress where q: "processFrames cfg st1 fs = (st2, ress)" by (cases "processFrames cfg st1 fs")
  have ne: "\<not> speechEnded res" "list_all (\<lambda>res. \<not> speechEnded res) ress"
    using Cons.prems(2) by (simp_all add: p q)
  have s1: "isSpeaking st1" "audioBuffer st1 = audioBuffer st @ [f]"
    using processFrame_speaking(1)[OF Cons.prems(1), of cfg f] ne(1) by (simp_all add: p)
  have "isSpeaking (fst (processFrames cfg st1 fs))
         \<and> audioBuffer (fst (processFrames cfg st1 fs)) = audioBuffer st1 @ fs"
    by (rule Cons.IH[OF s1(1)]) (simp add: q ne(2))
  then show ?case by (simp add: p q s1(2))
qed

text \<open>
  Claim C4, amended. In any state reached from the initial one, when a frame takes the
  detector from idle to speaking, the utterance buffer afterwards holds exactly that
  frame: the speech frame on which the count of consecutive speech frames reached
  \<open>minSpeechFrames\<close>. The speech frames counted before it were not buffered. For as long
  as the utterance does not end, the buffer is that frame followed by the frames that came
  after it; and the utterance handed on when a frame ends it consists of the frame of the
  transition, the frames after it and the frame that ended it, and of nothing else.
\<close>

theorem vad_transition_buffer_single_frame:
  assumes "st = fst (processFrames cfg vad_initial frames)"
    and "\<not> isSpeaking st"
    and "isSpeaking (fst (processFrame cfg st frame))"
  shows "audioBuffer (fst (processFrame cfg st frame)) = [frame]
         \<and> isSpeech cfg frame \<and> minSpeechFrames \<le> speechFrameCount st + 1
         \<and> (\<forall>later.
               list_all (\<lambda>res. \<not> speechEnded res)
                 (snd (processFrames cfg (fst (processFrame cfg st frame)) later)) \<longrightarrow>
               audioBuffer (fst (processFrames cfg (fst (processFrame cfg st frame)) later))
                 = frame # later
               \<and> (\<forall>final.
                     speechEnded (snd (processFrame cfg
                        (fst (processFrames cfg (fst (processFrame cfg st frame)) later)) final)) \<longrightarrow>
                     audioData (snd (processFrame cfg
                        (fst (processFrames cfg (fst (processFrame cfg st frame)) later)) final))
                       = Some (concat (frame # later @ [final]))))"
proof -
  define st1 where "st1 = fst (processFrame cfg st frame)"
  have "\<not> isSpeaking vad_initial \<longrightarrow> audioBuffer vad_initial = []" by (simp add: vad_initial_def)
  from processFrames_idle_buffer[OF this, of cfg frames]
  have empty: "audioBuffer st = []" using assms(1,2) by simp
  have first: "audioBuffer st1 = [frame] \<and> isSpeech cfg frame \<and> minSpeechFrames \<le> speechFrameCount st + 1"
    unfolding st1_def using assms(2,3) empty
    by (auto simp: processFrame_def Let_def split: if_splits)
  have sp: "isSpeaking st1" using assms(3) by (simp add: st1_def)
  have rest: "audioBuffer (fst (processFrames cfg st1 later)) = frame # later
               \<and> (\<forall>final.
                     speechEnded (snd (processFrame cfg (fst (processFrames cfg st1 later)) final)) \<longrightarrow>
                     audioData (snd (processFrame cfg (fst (processFrames cfg st1 later)) final))
                       = Some (concat (frame # later @ [final])))"
    if quiet: "list_all (\<lambda>res. \<not> speechEnded res) (snd (processFrames cfg st1 later))" for later
  proof -
    have a: "isSpeaking (fst (processFrames cfg st1 later))"
      and b: "audioBuffer (fst (processFrames cfg st1 later)) = frame # later"
      using processFrames_speaking[OF sp quiet] first by simp_all
    show ?thesis using b processFrame_speaking(2)[OF a, of cfg] by simp
  qed
  show ?thesis using first rest unfolding st1_def by blast
qed

theorem vad_transition_buffer_single_frame_witness:
  "\<not> isSpeaking (fst (processFrames vad_example_config vad_initial [loudFrame 1, loudFrame 2, loudFrame 3]))
   \<and> isSpeaking (fst (processFrame vad_example_config
         (fst (processFrames vad_example_config vad_initial [loudFrame 1, loudFrame 2, loudFrame 3]))
         (loudFrame 4)))
   \<and> audioBuffer (fst (processFrame vad_example_config
         (fst (processFrames vad_example_config vad_initial [loudFrame 1, loudFrame 2, loudFrame 3]))
         (loudFrame 4))) = [loudFrame 4]
   \<and> list_all (\<lambda>res. \<not> speechEnded res)
         (snd (processFrames vad_example_config
            (fst (processFrame vad_example_config
               (fst (processFrames vad_example_config vad_initial [loudFrame 1, loudFrame 2, loudFrame 3]))
               (loudFrame 4)))
            [loudFrame 5, quietFrame]))
   \<and> speechEnded (snd (processFrame vad_example_config
         (fst (processFrames vad_example_config
            (fst (processFrame vad_example_config
               (fst (processFrames vad_example_config vad_initial [loudFrame 1, loudFrame 2, loudFrame 3]))
               (loudFrame 4)))
            [loudFrame 5, quietFrame]))
         quietFrame))
   \<and> audioData (snd (processFrame vad_example_config
         (fst (processFrames vad_example_config
            (fst (processFrame vad_example_config
               (fst (processFrames vad_example_config vad_initial [loudFrame 1, loudFrame 2, loudFrame 3]))
               (loudFrame 4)))
            [loudFrame 5, quietFrame]))
         quietFrame))
       = Some (concat (loudFrame 4 # [loudFrame 5, quietFrame] @ [quietFrame]))"
proof -
  define st where "st = fst (processFrames vad_example_config vad_initial [loudFrame 1, loudFrame 2, loudFrame 3])"
  define st1 where "st1 = fst (processFrame vad_example_config st (loudFrame 4))"
  have a: "\<not> isSpeaking st" unfolding st_def by code_simp
  have b: "isSpeaking (fst (processFrame vad_example_config st (loudFrame 4)))" unfolding st_def by code_simp
  have c: "list_all (\<lambda>res. \<not> speechEnded res)
             (snd (processFrames vad_example_config (fst (processFrame vad_example_config st (loudFrame 4)))
                [loudFrame 5, quietFrame]))"
    unfolding st_def by code_simp
  have d: "speechEnded (snd (processFrame vad_example_config
             (fst (processFrames vad_example_config (fst (processFrame vad_example_config st (loudFrame 4)))
                [loudFrame 5, quietFrame])) quietFrame))"
    unfolding st_def by code_simp
  show ?thesis
    using vad_transition_buffer_single_frame[OF st_def a b] a b c d unfolding st_def by blast
qed

section \<open>Properties of the middleware combination\<close>

text \<open>What one round of the loop, and then the whole loop, does to each field.\<close>

lemma combineStep_fields:
  assumes "beforeSTT (combined s) = Some a1" "afterSTT (combined s) = Some a2"
    and "beforeTTS (combined s) = Some a3" "afterTTS (combined s) = Some a4"
  shows "beforeSTT (combined (combineStep s m)) = Some (a1 @ seamContribution beforeSTT m)"
    and "afterSTT (combined (combineStep s m)) = Some (a2 @ seamContribution afterSTT m)"
    and "beforeTTS (combined (combineStep s m)) = Some (a3 @ seamContribution beforeTTS m)"
    and "afterTTS (combined (combineStep s m)) = Some (a4 @ seamContribution afterTTS m)"
    and "agentMiddleware (combined (combineStep s m)) = agentMiddleware (combined s) @ [m]"
    and "onSpeechStart (combined (combineStep s m)) = onSpeechStart (combined s)"
    and "onAudioComplete (combined (combineStep s m)) = onAudioComplete (combined s)"
    and "speechStartCallbacks (combineStep s m) =
           speechStartCallbacks s @ eventContribution onSpeechStart m"
    and "audioCompleteCallbacks (combineStep s m) =
           audioCompleteCallbacks s @ eventContribution onAudioComplete m"
  using assms
  by (cases m; simp add: Let_def pushAll_def pushOne_def split: option.splits)+

lemma combineLoop_fields:
  assumes "beforeSTT (combined s) = Some a1" "afterSTT (combined s) = Some a2"
    and "beforeTTS (combined s) = Some a3" "afterTTS (combined s) = Some a4"
  shows "beforeSTT (combined (combineLoop s ms)) = Some (a1 @ concat (map (seamContribution beforeSTT) ms))
       \<and> afterSTT (combined (combineLoop s ms)) = Some (a2 @ concat (map (seamContribution afterSTT) ms))
       \<and> beforeTTS (combined (combineLoop s ms)) = Some (a3 @ concat (map (seamContribution beforeTTS) ms))
       \<and> afterTTS (combined (combineLoop s ms)) = Some (a4 @ concat (map (seamContribution afterTTS) ms))
       \<and> agentMiddleware (combined (combineLoop s ms)) = agentMiddleware (combined s) @ ms
       \<and> onSpeechStart (combined (combineLoop s ms)) = onSpeechStart (combined s)
       \<and> onAudioComplete (combined (combineLoop s ms)) = onAudioComplete (combined s)
       \<and> speechStartCallbacks (combineLoop s ms) =
           speechStartCallbacks s @ concat (map (eventContribution onSpeechStart) ms)
       \<and> audioCompleteCallbacks (combineLoop s ms) =
           audioCompleteCallbacks s @ concat (map (eventContribution onAudioComplete) ms)"
  using assms
proof (induction ms arbitrary: s a1 a2 a3 a4)
  case Nil
  then show ?case by simp
next
  case (Cons m ms)
  note step = combineStep_fields[OF Cons.prems, of m]
  show ?case
    using Cons.IH[OF step(1-4)] by (simp add: step(5-9))
qed

lemma combineMiddleware_fields:
  "beforeSTT (combineMiddleware ms) = Some (concat (map (seamContribution beforeSTT) ms))"
  "afterSTT (combineMiddleware ms) = Some (concat (map (seamContribution afterSTT) ms))"
  "beforeTTS (combineMiddleware ms) = Some (concat (map (seamContribution beforeTTS) ms))"
  "afterTTS (combineMiddleware ms) = Some (concat (map (seamContribution afterTTS) ms))"
  "agentMiddleware (combineMiddleware ms) = ms"
  "onSpeechStart (combineMiddleware ms) =
     (if concat (map (eventContribution onSpeechStart) ms) = [] then None
      else Some (runCallbacks (concat (map (eventContribution onSpeechStart) ms))))"
  "onAudioComplete (combineMiddleware ms) =
     (if concat (map (eventContribution onAudioComplete) ms) = [] then None
      else Some (runCallbacks (concat (map (eventContribution onAudioComplete) ms))))"
proof -
  define s0 :: "'a combine_state" where
    "s0 = \<lparr> combined = \<lparr> beforeSTT = Some [], afterSTT = Some [], beforeTTS = Some [],
                               afterTTS = Some [], onSpeechStart = None, onAudioComplete = None,
                               agentMiddleware = [] \<rparr>,
                  speechStartCallbacks = [], audioCompleteCallbacks = [] \<rparr>"
  have init: "beforeSTT (combined s0) = Some []" "afterSTT (combined s0) = Some []"
    "beforeTTS (combined s0) = Some []" "afterTTS (combined s0) = Some []"
    by (simp_all add: s0_def)
  note loop = combineLoop_fields[OF init, of ms]
  have rest: "agentMiddleware (combined s0) = []" "onSpeechStart (combined s0) = None"
    "onAudioComplete (combined s0) = None" "speechStartCallbacks s0 = []" "audioCompleteCallbacks s0 = []"
    by (simp_all add: s0_def)
  have cm: "combineMiddleware ms =
     (let s = combineLoop s0 ms;
          c = combined s;
          c = (if length (speechStartCallbacks s) > 0
               then c\<lparr> onSpeechStart := Some (runCallbacks (speechStartCallbacks s)) \<rparr> else c);
          c = (if length (audioCompleteCallbacks s) > 0
               then c\<lparr> onAudioComplete := Some (runCallbacks (audioCompleteCallbacks s)) \<rparr> else c)
      in c)"
    by (simp add: combineMiddleware_def s0_def)
  show "beforeSTT (combineMiddleware ms) = Some (concat (map (seamContribution beforeSTT) ms))"
    using loop by (simp add: cm Let_def)
  show "afterSTT (combineMiddleware ms) = Some (concat (map (seamContribution afterSTT) ms))"
    using loop by (simp add: cm Let_def)
  show "beforeTTS (combineMiddleware ms) = Some (concat (map (seamContribution beforeTTS) ms))"
    using loop by (simp add: cm Let_def)
  show "afterTTS (combineMiddleware ms) = Some (concat (map (seamContribution afterTTS) ms))"
    using loop by (simp add: cm Let_def)
  show "agentMiddleware (combineMiddleware ms) = ms"
    using loop rest by (simp add: cm Let_def)
  show "onSpeechStart (combineMiddleware ms) =
     (if concat (map (eventContribution onSpeechStart) ms) = [] then None
      else Some (runCallbacks (concat (map (eventContribution onSpeechStart) ms))))"
    using loop rest by (simp add: cm Let_def)
  show "onAudioComplete (combineMiddleware ms) =
     (if concat (map (eventContribution onAudioComplete) ms) = [] then None
      else Some (runCallbacks (concat (map (eventContribution onAudioComplete) ms))))"
    using loop rest by (simp add: cm Let_def)
qed

text \<open>Piping through a chain is a left fold; chains compose by concatenation.\<close>

lemma pipeThroughTransforms_foldl:
  "pipeThroughTransforms stream ts = foldl pipeThrough stream ts"
  by (induction ts arbitrary: stream) simp_all

lemma pipeThroughTransforms_append:
  "pipeThroughTransforms stream (ts1 @ ts2) =
     pipeThroughTransforms (pipeThroughTransforms stream ts1) ts2"
  by (simp add: pipeThroughTransforms_foldl)

lemma pipeThroughTransforms_concat:
  "pipeThroughTransforms stream (concat tss) = foldl pipeThroughTransforms stream tss"
  by (induction tss arbitrary: stream) (simp_all add: pipeThroughTransforms_append)

text \<open>The combined callback on callbacks that return, and on a list split in two.\<close>

lemma runCallbacks_all_return:
  assumes "\<And>cb w. cb \<in> set cbs \<Longrightarrow> snd (cb w) = None"
  shows "runCallbacks cbs w = (foldl (\<lambda>w cb. fst (cb w)) w cbs, None)"
  using assms
proof (induction cbs arbitrary: w)
  case Nil
  show ?case by simp
next
  case (Cons cb cbs)
  obtain w' where w': "cb w = (w', None)"
    using Cons.prems[of cb w] by (cases "cb w") simp
  show ?case using Cons.IH[of w'] Cons.prems by (simp add: w')
qed

lemma runCallbacks_append:
  "runCallbacks (cbs1 @ cbs2) w =
     (case runCallbacks cbs1 w of
        (w', Some e) \<Rightarrow> (w', Some e)
      | (w', None) \<Rightarrow> runCallbacks cbs2 w')"
  by (induction cbs1 arbitrary: w) (auto split: prod.splits option.splits)


lemma pipeThroughTransforms_seams:
  "pipeThroughTransforms s (concat (map (seamContribution seam) ms))
     = foldl (\<lambda>stream m. foldl pipeThrough stream (seamContribution seam m)) s ms"
  by (induction ms arbitrary: s) (simp_all add: pipeThroughTransforms_foldl)

text \<open>
  Claim C5, as stated, fails in its last part. Four middleware register a callback for
  the same event and the second of these callbacks throws: one firing of the combined
  callback invokes the first and the second, and the third and the fourth are not
  invoked.
\<close>

theorem combined_event_not_every_callback_invoked:
  "concat (map (eventContribution onAudioComplete)
       [listener ''a'', AgentMiddleware ''agent'', failingListener ''b'', listener ''c'', listener ''d''])
     = [logs ''a'', logsAndThrows ''b'', logs ''c'', logs ''d'']
   \<and> map_option (\<lambda>f. f []) (onAudioComplete (combineMiddleware
       [listener ''a'', AgentMiddleware ''agent'', failingListener ''b'', listener ''c'', listener ''d'']))
     = Some ([''a'', ''b''], Some ''Error'')"
  by (simp add: combineMiddleware_fields listener_def failingListener_def noHooks_def
        logs_def logsAndThrows_def)

text \<open>
  Claim C5, amended. For any list of middleware, each seam of the combined hooks is the
  concatenation, in registration order, of what the voice middleware contribute to it.
  Piping a stream through such a chain pipes it through the contribution of the first
  middleware, then through that of the second, and so on; the head of a chain is applied
  to the stream before the rest. The combined callback of an event runs the registered
  callbacks in registration order, and when none of them throws, one firing invokes every
  one of them, in that order.
\<close>

theorem combineMiddleware_registration_order:
  fixes ms :: "'w middleware list"
  defines "starts \<equiv> concat (map (eventContribution onSpeechStart) ms)"
    and "completes \<equiv> concat (map (eventContribution onAudioComplete) ms)"
  shows "beforeSTT (combineMiddleware ms) = Some (concat (map (seamContribution beforeSTT) ms))
       \<and> afterSTT (combineMiddleware ms) = Some (concat (map (seamContribution afterSTT) ms))
       \<and> beforeTTS (combineMiddleware ms) = Some (concat (map (seamContribution beforeTTS) ms))
       \<and> afterTTS (combineMiddleware ms) = Some (concat (map (seamContribution afterTTS) ms))
       \<and> pipeThroughTransforms audio (concat (map (seamContribution beforeSTT) ms))
           = foldl (\<lambda>stream m. foldl pipeThrough stream (seamContribution beforeSTT m)) audio ms
       \<and> pipeThroughTransforms text (concat (map (seamContribution beforeTTS) ms))
           = foldl (\<lambda>stream m. foldl pipeThrough stream (seamContribution beforeTTS m)) text ms
       \<and> pipeThroughTransforms stream (t # ts) = pipeThroughTransforms (t stream) ts
       \<and> onSpeechStart (combineMiddleware ms) = (if starts = [] then None else Some (runCallbacks starts))
       \<and> onAudioComplete (combineMiddleware ms)
           = (if completes = [] then None else Some (runCallbacks completes))
       \<and> ((\<forall>cb \<in> set starts. \<forall>w. snd (cb w) = None) \<longrightarrow>
            runCallbacks starts w0 = (foldl (\<lambda>w cb. fst (cb w)) w0 starts, None))
       \<and> ((\<forall>cb \<in> set completes. \<forall>w. snd (cb w) = None) \<longrightarrow>
            runCallbacks completes w0 = (foldl (\<lambda>w cb. fst (cb w)) w0 completes, None))"
proof -
  note pipe = pipeThroughTransforms_seams
  have first: "pipeThroughTransforms stream (t # ts) = pipeThroughTransforms (t stream) ts"
    by (simp add: pipeThrough_def)
  have e1: "onSpeechStart (combineMiddleware ms) = (if starts = [] then None else Some (runCallbacks starts))"
    unfolding starts_def by (rule combineMiddleware_fields)
  have e2: "onAudioComplete (combineMiddleware ms)
           = (if completes = [] then None else Some (runCallbacks completes))"
    unfolding completes_def by (rule combineMiddleware_fields)
  have r1: "(\<forall>cb \<in> set starts. \<forall>w. snd (cb w) = None) \<longrightarrow>
            runCallbacks starts w0 = (foldl (\<lambda>w cb. fst (cb w)) w0 starts, None)"
    using runCallbacks_all_return[of starts w0] by blast
  have r2: "(\<forall>cb \<in> set completes. \<forall>w. snd (cb w) = None) \<longrightarrow>
            runCallbacks completes w0 = (foldl (\<lambda>w cb. fst (cb w)) w0 completes, None)"
    using runCallbacks_all_return[of completes w0] by blast
  show ?thesis
    by (intro conjI) (rule combineMiddleware_fields pipe first e1 e2 r1 r2)+
qed

theorem combineMiddleware_registration_order_witness:
  "concat (map (eventContribution onSpeechStart)
       [listener ''first'', AgentMiddleware ''agent'', listener ''second''])
     = [logs ''first'', logs ''second'']
   \<and> (\<forall>w. snd (logs ''first'' w) = None)
   \<and> (\<forall>w. snd (logs ''second'' w) = None)
   \<and> map_option (\<lambda>f. f []) (onSpeechStart (combineMiddleware
          [listener ''first'', AgentMiddleware ''agent'', listener ''second'']))
       = Some ([''first'', ''second''], None)
   \<and> map_option (pipeThroughTransforms [''hi'', [], ''yo''])
        (beforeTTS (combineMiddleware
           [textMiddleware ''a'' [dropEmpty], textMiddleware ''b'' [tagChunks ''!'']]))
       = Some [''hi!'', ''yo!'']"
proof -
  define ms where "ms = [listener ''first'', AgentMiddleware ''agent'', listener ''second'']"
  define ts where "ts = [textMiddleware ''a'' [dropEmpty], textMiddleware ''b'' [tagChunks ''!'']]"
  have cbs: "concat (map (eventContribution onSpeechStart) ms) = [logs ''first'', logs ''second'']"
    by (simp add: ms_def listener_def noHooks_def)
  have h: "\<forall>cb \<in> set (concat (map (eventContribution onSpeechStart) ms)). \<forall>w. snd (cb w) = None"
    by (simp add: cbs logs_def)
  have seam: "concat (map (seamContribution beforeTTS) ts) = [dropEmpty, tagChunks ''!'']"
    by (simp add: ts_def textMiddleware_def noHooks_def)
  note thm1 = combineMiddleware_registration_order[of ms "[]" "[]" "[]" dropEmpty "[]" "[]"]
  note thm2 = combineMiddleware_registration_order[of ts "[]" "[]" "[]" dropEmpty "[]" "[]"]
  have a: "map_option (\<lambda>f. f []) (onSpeechStart (combineMiddleware ms)) = Some ([''first'', ''second''], None)"
    using thm1 h by (simp add: cbs logs_def)
  have b: "map_option (pipeThroughTransforms [''hi'', [], ''yo'']) (beforeTTS (combineMiddleware ts))
             = Some [''hi!'', ''yo!'']"
    using thm2 by (simp add: seam pipeThrough_def dropEmpty_def tagChunks_def)
  have l: "\<forall>w. snd (logs ''first'' w) = None" "\<forall>w. snd (logs ''second'' w) = None"
    by (simp_all add: logs_def)
  show ?thesis using cbs l a b unfolding ms_def ts_def by blast
qed

text \<open>
  Claim C6, as stated, fails. With three listeners of which the second throws, one
  firing of the combined callback runs the first and the second and ends with the
  exception: the third is not run. The same holds for the other event.
\<close>

theorem combined_callback_throw_skips_rest:
  "map_option (\<lambda>f. f []) (onSpeechStart (combineMiddleware
       [listener ''first'', failingListener ''second'', listener ''third'']))
     = Some ([''first'', ''second''], Some ''Error'')
   \<and> map_option (\<lambda>f. f []) (onAudioComplete (combineMiddleware
       [failingListener ''first'', listener ''second'']))
     = Some ([''first''], Some ''Error'')"
  by (simp add: combineMiddleware_fields listener_def failingListener_def noHooks_def
        logs_def logsAndThrows_def)

text \<open>
  Claim C6, amended. When the callbacks registered before some callback return and that
  callback throws, a firing of the combined callback ends there, with its exception and
  the world as that callback left it: the callbacks registered before it have run, those
  registered after it have not, whatever they are.
\<close>

theorem combined_callback_runs_until_throw:
  assumes "runCallbacks cbs1 w = (w1, None)" and "cb w1 = (w2, Some e)"
  shows "(concat (map (eventContribution onSpeechStart) ms) = cbs1 @ cb # cbs2 \<longrightarrow>
            map_option (\<lambda>f. f w) (onSpeechStart (combineMiddleware ms)) = Some (w2, Some e))
       \<and> (concat (map (eventContribution onAudioComplete) ms) = cbs1 @ cb # cbs2 \<longrightarrow>
            map_option (\<lambda>f. f w) (onAudioComplete (combineMiddleware ms)) = Some (w2, Some e))"
proof -
  have "runCallbacks (cbs1 @ cb # cbs2) w = (w2, Some e)"
    using assms by (simp add: runCallbacks_append)
  then show ?thesis by (simp add: combineMiddleware_fields)
qed

theorem combined_callback_runs_until_throw_witness:
  "runCallbacks [logs ''first''] [] = ([''first''], None)
   \<and> logsAndThrows ''second'' [''first''] = ([''first'', ''second''], Some ''Error'')
   \<and> concat (map (eventContribution onSpeechStart)
        [listener ''first'', failingListener ''second'', listener ''third''])
       = [logs ''first''] @ logsAndThrows ''second'' # [logs ''third'']
   \<and> map_option (\<lambda>f. f []) (onSpeechStart (combineMiddleware
        [listener ''first'', failingListener ''second'', listener ''third'']))
       = Some ([''first'', ''second''], Some ''Error'')"
proof -
  have a: "runCallbacks [logs ''first''] [] = ([''first''], None)" by (simp add: logs_def)
  have b: "logsAndThrows ''second'' [''first''] = ([''first'', ''second''], Some ''Error'')"
    by (simp add: logsAndThrows_def)
  have c: "concat (map (eventContribution onSpeechStart)
        [listener ''first'', failingListener ''second'', listener ''third''])
       = [logs ''first''] @ logsAndThrows ''second'' # [logs ''third'']"
    by (simp add: listener_def failingListener_def noHooks_def)
  show ?thesis
    using combined_callback_runs_until_throw[where ?cbs1.0 = "[logs ''first'']" and w = "[]"
        and cb = "logsAndThrows ''second''" and ?cbs2.0 = "[logs ''third'']"
        and ms = "[listener ''first'', failingListener ''second'', listener ''third'']", OF a b]
      a b c
    by blast
qed

section \<open>Properties of the agent transform\<close>

text \<open>
  The loop over the stream only ever adds forwarded response text to the actions, and
  leaves the pending interrupt and the thread id alone. When nothing disturbs it, it
  forwards the text of every chunk and ends with the reason of the last hang-up chunk.
\<close>

lemma consumeStream_acts:
  assumes "consumeStream st r acts items = (st', r', acts', out)"
  shows "\<exists>texts. acts' = acts @ map EnqueueResponse texts"
  using assms
proof (induction st r acts items rule: consumeStream.induct)
  case (1 st r acts)
  then show ?case by simp
next
  case (2 st r acts items)
  then show ?case by simp
next
  case (3 st r acts items)
  then show ?case by simp
next
  case (4 st r acts c items)
  show ?case
  proof (cases "stopped st")
    case True
    then show ?thesis using "4.prems" by simp
  next
    case False
    then obtain texts where "acts' = (acts @ map EnqueueResponse (responseText c)) @ map EnqueueResponse texts"
      using "4.IH" "4.prems" by auto
    then have "acts' = acts @ map EnqueueResponse (responseText c @ texts)" by simp
    then show ?thesis by blast
  qed
qed

lemma consumeStream_undisturbed:
  assumes "undisturbed items" "\<not> stopped st"
  shows "consumeStream st r acts items =
           (st, foldl hangUpReason r (yielded items),
            acts @ map EnqueueResponse (concat (map responseText (yielded items))), Returned)"
  using assms
proof (induction st r acts items rule: consumeStream.induct)
  case (4 st r acts c items)
  then show ?case by simp
qed simp_all

lemma consumeStream_pending:
  assumes "consumeStream st r acts items = (st', r', acts', out)"
  shows "pendingInterrupt st' = pendingInterrupt st \<and> threadId st' = threadId st"
  using assms
proof (induction st r acts items rule: consumeStream.induct)
  case (4 st r acts c items)
  then show ?case by (cases "stopped st") auto
qed auto

text \<open>The loop over the tasks adds interrupt callbacks and interrupt text only.\<close>

lemma checkInterrupts_acts:
  assumes "checkInterrupts cb st acts tasks = (st', acts')"
  shows "\<exists>new. acts' = acts @ new
           \<and> (\<forall>a \<in> set new. (\<exists>v. a = OnInterrupt v) \<or> (\<exists>s. a = EnqueueInterrupt s))
           \<and> pendingInterrupt st' = lastInterruptValue (pendingInterrupt st) tasks
           \<and> threadId st' = threadId st \<and> stopped st' = stopped st"
  using assms
proof (induction cb st acts tasks rule: checkInterrupts.induct)
  case (1 cb st acts)
  then show ?case by simp
next
  case (2 cb st acts v others tasks)
  define step where "step = (if hasOnInterrupt cb then [OnInterrupt v] else [])
             @ (case v of JString text \<Rightarrow> [EnqueueInterrupt text] | _ \<Rightarrow> [])"
  have st: "\<forall>a \<in> set step. (\<exists>v. a = OnInterrupt v) \<or> (\<exists>s. a = EnqueueInterrupt s)"
    by (auto simp: step_def split: jsval.splits)
  from "2.IH"[of ] "2.prems"
  obtain new where new: "acts' = (acts @ step) @ new"
     "\<forall>a \<in> set new. (\<exists>v. a = OnInterrupt v) \<or> (\<exists>s. a = EnqueueInterrupt s)"
     "pendingInterrupt st' = lastInterruptValue v tasks"
     "threadId st' = threadId st" "stopped st' = stopped st"
    by (auto simp: step_def)
  show ?case
    using new st by (intro exI[of _ "step @ new"]) auto
qed auto


text \<open>
  The actions of one call on an agent that is not stopped: the call of the agent, the
  forwarded response text, at most one hang-up notification, and then the state query
  with what the interrupts give rise to.
\<close>

lemma agentTransform_shape:
  assumes "\<not> stopped st" "agentTransform cb st text env = (st', acts, out)"
  defines "input \<equiv> (if pendingInterrupt st \<noteq> JUndefined then ResumeCommand text else NewUserMessage text)"
  shows "\<exists>texts hang rest.
           acts = AgentStreamCall input (threadId st) # map EnqueueResponse texts @ hang @ rest
         \<and> (hang = [] \<or> (\<exists>r. hang = [OnHangUp r]))
         \<and> (\<forall>a \<in> set rest. (\<exists>tid. a = AgentGetStateCall tid) \<or> (\<exists>v. a = OnInterrupt v)
                               \<or> (\<exists>s. a = EnqueueInterrupt s))
         \<and> (out = Returned \<longrightarrow>
               pendingInterrupt st' = lastInterruptValue JUndefined (snapshotTasks (agentGetState env))
               \<and> (\<exists>others. rest = AgentGetStateCall (threadId st) # others))
         \<and> (out = Rejected \<longrightarrow> pendingInterrupt st' = JUndefined)
         \<and> threadId st' = threadId st
         \<and> (\<forall>items. agentStream env = Stream items \<and> undisturbed items \<longrightarrow>
               texts = concat (map responseText (yielded items))
               \<and> hang = (if foldl hangUpReason JNull (yielded items) \<noteq> JNull \<and> hasOnHangUp cb
                         then [OnHangUp (foldl hangUpReason JNull (yielded items))] else []))"
proof -
  define st1 where "st1 = (if pendingInterrupt st \<noteq> JUndefined then st\<lparr> pendingInterrupt := JUndefined \<rparr> else st)"
  define call where "call = AgentStreamCall input (threadId st1)"
  have call: "AgentStreamCall input (threadId st) = call"
    by (simp add: call_def st1_def)
  have st1: "pendingInterrupt st1 = JUndefined" "threadId st1 = threadId st" "\<not> stopped st1"
    using assms(1) by (simp_all add: st1_def)
  have unfold: "agentTransform cb st text env =
      (case agentStream env of
              StreamRejected \<Rightarrow> (st1, [call], Rejected)
            | Stream items \<Rightarrow>
                (case consumeStream st1 JNull [call] items of
                   (st2, pendingHangUpReason, acts2, Rejected) \<Rightarrow> (st2, acts2, Rejected)
                 | (st2, pendingHangUpReason, acts2, Returned) \<Rightarrow>
                     (let acts3 = acts2 @ (if pendingHangUpReason \<noteq> JNull \<and> hasOnHangUp cb
                                           then [OnHangUp pendingHangUpReason] else []);
                          acts4 = acts3 @ [AgentGetStateCall (threadId st2)]
                      in case agentGetState env of
                           GetStateRejected \<Rightarrow> (st2, acts4, Rejected)
                         | GraphState None \<Rightarrow> (st2, acts4, Returned)
                         | GraphState (Some tasks) \<Rightarrow>
                             (case checkInterrupts cb st2 acts4 tasks of
                                (st3, acts5) \<Rightarrow> (st3, acts5, Returned)))))"
    unfolding agentTransform_def st1_def call_def input_def Let_def
    using assms(1) by (cases "pendingInterrupt st = JUndefined") simp_all
  show ?thesis
  proof (cases "agentStream env")
    case StreamRejected
    then have "st' = st1" "acts = [call]" "out = Rejected"
      using assms(2) unfolding unfold by simp_all
    then show ?thesis
      using st1 StreamRejected unfolding call
      by (intro exI[of _ "[]"]) simp
  next
    case (Stream items)
    obtain st2 reason acts2 out2 where cs: "consumeStream st1 JNull [call] items = (st2, reason, acts2, out2)"
      by (cases "consumeStream st1 JNull [call] items") auto
    obtain texts where texts: "acts2 = [call] @ map EnqueueResponse texts"
      using consumeStream_acts[OF cs] by blast
    have st2: "pendingInterrupt st2 = JUndefined" "threadId st2 = threadId st"
      using consumeStream_pending[OF cs] st1 by simp_all
    have und: "texts = concat (map responseText (yielded items)) \<and> reason = foldl hangUpReason JNull (yielded items) \<and> out2 = Returned"
      if "undisturbed items"
    proof -
      have inj: "inj EnqueueResponse" by (simp add: inj_def)
      show ?thesis
        using consumeStream_undisturbed[OF that st1(3), of JNull "[call]"] cs texts
        by (simp add: inj_map_eq_map[OF inj])
    qed
    define hang where "hang = (if reason \<noteq> JNull \<and> hasOnHangUp cb then [OnHangUp reason] else [])"
    have hang: "hang = [] \<or> (\<exists>r. hang = [OnHangUp r])" by (simp add: hang_def)
    show ?thesis
    proof (cases out2)
      case Rejected
      then have res: "st' = st2" "acts = acts2" "out = Rejected"
        using assms(2) cs Stream unfolding unfold by simp_all
      have "\<not> undisturbed items" using und Rejected by auto
      then show ?thesis
        using res st2 texts Stream unfolding call
        by (intro exI[of _ texts] exI[of _ "[]"]) simp
    next
      case Returned
      define acts4 where "acts4 = acts2 @ hang @ [AgentGetStateCall (threadId st)]"
      have u: "undisturbed items \<Longrightarrow> texts = concat (map responseText (yielded items))
               \<and> hang = (if foldl hangUpReason JNull (yielded items) \<noteq> JNull \<and> hasOnHangUp cb
                         then [OnHangUp (foldl hangUpReason JNull (yielded items))] else [])"
        using und by (simp add: hang_def)
      show ?thesis
      proof (cases "agentGetState env")
        case GetStateRejected
        then have res: "st' = st2" "acts = acts4" "out = Rejected"
          using assms(2) cs Stream Returned st2 unfolding unfold
          by (simp_all add: acts4_def hang_def Let_def)
        show ?thesis
          using res st2 texts hang u Stream unfolding call acts4_def
          by (intro exI[of _ texts] exI[of _ hang] exI[of _ "[AgentGetStateCall (threadId st)]"]) simp
      next
        case (GraphState tasksOpt)
        show ?thesis
        proof (cases tasksOpt)
          case None
          then have res: "st' = st2" "acts = acts4" "out = Returned"
            using assms(2) cs Stream Returned GraphState st2 unfolding unfold
            by (simp_all add: acts4_def hang_def Let_def)
          show ?thesis
            using res st2 texts hang u Stream GraphState None unfolding call acts4_def
            by (intro exI[of _ texts] exI[of _ hang] exI[of _ "[AgentGetStateCall (threadId st)]"]) simp
        next
          case (Some tasks)
          obtain st3 acts5 where ci: "checkInterrupts cb st2 acts4 tasks = (st3, acts5)"
            by (cases "checkInterrupts cb st2 acts4 tasks") auto
          have res: "st' = st3" "acts = acts5" "out = Returned"
            using assms(2) cs Stream Returned GraphState Some st2 ci unfolding unfold
            by (simp_all add: acts4_def hang_def Let_def)
          obtain new where new: "acts5 = acts4 @ new"
            "\<forall>a \<in> set new. (\<exists>v. a = OnInterrupt v) \<or> (\<exists>s. a = EnqueueInterrupt s)"
            "pendingInterrupt st3 = lastInterruptValue (pendingInterrupt st2) tasks"
            "threadId st3 = threadId st2"
            using checkInterrupts_acts[OF ci] by blast
          show ?thesis
            using res st2 texts hang u Stream GraphState Some new unfolding call acts4_def
            by (intro exI[of _ texts] exI[of _ hang] exI[of _ "AgentGetStateCall (threadId st) # new"]) auto
        qed
      qed
    qed
  qed
qed


text \<open>A list with a single element of some kind splits at that element in one way only.\<close>

lemma split_at_unique:
  assumes "\<forall>a \<in> set pre. \<not> P a" "\<forall>a \<in> set post. \<not> P a" "P y"
    and "pre @ x # post = before @ y # after"
  shows "before = pre \<and> y = x \<and> after = post"
  using assms
proof (induction pre arbitrary: before)
  case Nil
  show ?case
  proof (cases before)
    case Nil
    then show ?thesis using Nil.prems by simp
  next
    case (Cons b bs)
    then have "y \<in> set post" using Nil.prems(4) by auto
    then show ?thesis using Nil.prems(2,3) by blast
  qed
next
  case (Cons p pre)
  show ?case
  proof (cases before)
    case Nil
    then have "y = p" using Cons.prems(4) by simp
    then show ?thesis using Cons.prems(1,3) by simp
  next
    case (Cons b bs)
    then have "pre @ x # post = bs @ y # after" "b = p" using Cons.prems(4) by simp_all
    then show ?thesis using Cons.IH[of bs] Cons.prems(1,2,3) Cons by simp
  qed
qed


text \<open>
  Claim C1, as stated, fails when the voice agent is stopped during the turn. The agent
  yields a response chunk and a hang-up event, then \<^verbatim>\<open>stop()\<close> is called, then the agent
  yields another response chunk. The loop is left at that chunk, which is never enqueued,
  and \<^verbatim>\<open>onHangUp\<close> is invoked all the same: of the two response texts of the stream only
  the first has been forwarded when the hang-up is signalled.
\<close>

theorem hang_up_with_response_text_unsent:
  "agentTransform all_callbacks agent_initial ''bye''
     (turn [Yield (aiChunk ''Good''), Yield (toolMessage ''hang_up'' ''done''), StopCalled,
            Yield (aiChunk ''night'')] [])
     = (agent_initial\<lparr> stopped := True \<rparr>,
        [AgentStreamCall (NewUserMessage ''bye'') ''thread-1'', EnqueueResponse ''Good'',
         OnHangUp (JString ''done''), AgentGetStateCall ''thread-1''],
        Returned)
   \<and> concat (map responseText (yielded
        [Yield (aiChunk ''Good''), Yield (toolMessage ''hang_up'' ''done''), StopCalled,
         Yield (aiChunk ''night'')]))
     = [''Good'', ''night'']"
  by (simp add: agentTransform_def agent_initial_def all_callbacks_def turn_def aiChunk_def
        toolMessage_def)

text \<open>
  Claim C1, amended. In every call of the transform, whatever the agent does and whenever
  the voice agent is stopped, the hang-up decision is held back until the loop is over:
  once \<^verbatim>\<open>onHangUp\<close> has been invoked no response text is enqueued any more, and
  \<^verbatim>\<open>onHangUp\<close> is invoked at most once. And when the loop runs through the whole stream
  (the agent was not stopped at the start, the stream does not throw and \<^verbatim>\<open>stop()\<close> is not
  called meanwhile), the actions are: the call of the agent, then the text of every
  response chunk of the stream in order, then the hang-up notification if a reason other
  than \<^verbatim>\<open>null\<close> was recorded and there is a callback, then the rest, which enqueues no
  response text.
\<close>

theorem hang_up_after_response_text:
  assumes "agentTransform cb st text env = (st', acts, out)"
  shows "(\<forall>before r after. acts = before @ OnHangUp r # after \<longrightarrow>
            (\<forall>s. EnqueueResponse s \<notin> set after)
          \<and> (\<forall>r'. OnHangUp r' \<notin> set before \<and> OnHangUp r' \<notin> set after))
       \<and> (\<forall>items. \<not> stopped st \<and> agentStream env = Stream items \<and> undisturbed items \<longrightarrow>
            (\<exists>call rest.
               acts = call # map EnqueueResponse (concat (map responseText (yielded items)))
                      @ (if foldl hangUpReason JNull (yielded items) \<noteq> JNull \<and> hasOnHangUp cb
                         then [OnHangUp (foldl hangUpReason JNull (yielded items))] else [])
                      @ rest
             \<and> (\<forall>s. EnqueueResponse s \<notin> set rest)))"
proof (cases "stopped st")
  case True
  then have "acts = []" using assms by (simp add: agentTransform_def)
  then show ?thesis using True by simp
next
  case False
  from agentTransform_shape[OF False assms]
  obtain call texts hang rest where shape:
    "acts = call # map EnqueueResponse texts @ hang @ rest"
    "\<exists>i t. call = AgentStreamCall i t"
    "hang = [] \<or> (\<exists>r. hang = [OnHangUp r])"
    "\<forall>a \<in> set rest. (\<exists>tid. a = AgentGetStateCall tid) \<or> (\<exists>v. a = OnInterrupt v)
                               \<or> (\<exists>s. a = EnqueueInterrupt s)"
    "\<forall>items. agentStream env = Stream items \<and> undisturbed items \<longrightarrow>
               texts = concat (map responseText (yielded items))
               \<and> hang = (if foldl hangUpReason JNull (yielded items) \<noteq> JNull \<and> hasOnHangUp cb
                         then [OnHangUp (foldl hangUpReason JNull (yielded items))] else [])"
    by blast
  define isHang where "isHang = (\<lambda>a. \<exists>r. a = OnHangUp r)"
  define pre where "pre = call # map EnqueueResponse texts"
  have pre: "\<forall>a \<in> set pre. \<not> isHang a" using shape(2) by (auto simp: pre_def isHang_def)
  have rest: "\<forall>a \<in> set rest. \<not> isHang a" "\<forall>s. EnqueueResponse s \<notin> set rest"
    using shape(4) by (auto simp: isHang_def)
  have order: "(\<forall>s. EnqueueResponse s \<notin> set after)
          \<and> (\<forall>r'. OnHangUp r' \<notin> set before \<and> OnHangUp r' \<notin> set after)"
    if split: "acts = before @ OnHangUp r # after" for before r after
  proof -
    have y: "isHang (OnHangUp r)" by (simp add: isHang_def)
    show ?thesis
    proof (cases "hang = []")
      case True
      then have "\<forall>a \<in> set acts. \<not> isHang a" using shape(1) pre rest(1) by (auto simp: pre_def)
      then show ?thesis using split y by auto
    next
      case False
      then obtain r0 where r0: "hang = [OnHangUp r0]" using shape(3) by blast
      have "pre @ OnHangUp r0 # rest = before @ OnHangUp r # after"
        using shape(1) split by (simp add: pre_def r0)
      from split_at_unique[OF pre rest(1) y this]
      have "before = pre" "after = rest" by simp_all
      then show ?thesis using pre rest by (auto simp: isHang_def)
    qed
  qed
  have full: "\<exists>call rest.
               acts = call # map EnqueueResponse (concat (map responseText (yielded items)))
                      @ (if foldl hangUpReason JNull (yielded items) \<noteq> JNull \<and> hasOnHangUp cb
                         then [OnHangUp (foldl hangUpReason JNull (yielded items))] else [])
                      @ rest
             \<and> (\<forall>s. EnqueueResponse s \<notin> set rest)"
    if "agentStream env = Stream items" "undisturbed items" for items
    using shape(1,5) rest(2) that by blast
  show ?thesis using order full by blast
qed

theorem hang_up_after_response_text_witness:
  "agentTransform all_callbacks agent_initial ''goodbye''
     (turn [Yield (aiChunk ''Good''), Yield (toolMessage ''hang_up'' ''done''), Yield (aiChunk ''bye'')] [])
     = (agent_initial,
        [AgentStreamCall (NewUserMessage ''goodbye'') ''thread-1'',
         EnqueueResponse ''Good'', EnqueueResponse ''bye''] @
        OnHangUp (JString ''done'') # [AgentGetStateCall ''thread-1''],
        Returned)
   \<and> (\<forall>s. EnqueueResponse s \<notin> set [AgentGetStateCall ''thread-1''])
   \<and> (\<forall>r'. OnHangUp r' \<notin> set [AgentStreamCall (NewUserMessage ''goodbye'') ''thread-1'',
                                   EnqueueResponse ''Good'', EnqueueResponse ''bye'']
           \<and> OnHangUp r' \<notin> set [AgentGetStateCall ''thread-1''])"
proof -
  have run: "agentTransform all_callbacks agent_initial ''goodbye''
     (turn [Yield (aiChunk ''Good''), Yield (toolMessage ''hang_up'' ''done''), Yield (aiChunk ''bye'')] [])
     = (agent_initial,
        [AgentStreamCall (NewUserMessage ''goodbye'') ''thread-1'',
         EnqueueResponse ''Good'', EnqueueResponse ''bye''] @
        OnHangUp (JString ''done'') # [AgentGetStateCall ''thread-1''],
        Returned)"
    by (simp add: agentTransform_def agent_initial_def all_callbacks_def turn_def aiChunk_def
          toolMessage_def)
  show ?thesis
    using hang_up_after_response_text[OF run] run by blast
qed





section \<open>Properties of the text-to-speech interrupt\<close>

text \<open>
  In the Hume adapter a second call of the interrupt while the flag is set does nothing:
  the state is the same, nothing is closed, nobody is notified and no timer is armed.
\<close>

lemma interruptTTS_while_interrupted:
  "hume_isInterrupted st \<Longrightarrow> interruptTTS cb now st = (st, [])"
  by (simp add: interruptTTS_def)

lemma interruptTTS_twice:
  "interruptTTS cb later (fst (interruptTTS cb now st)) = (fst (interruptTTS cb now st), [])"
  by (simp add: interruptTTS_def)

text \<open>
  In the OpenAI adapter a second call arms a second timer, whatever the state.
\<close>

lemma openaiInterrupt_twice_arms_two_timers:
  "timersDue (openaiInterrupt later (openaiInterrupt now st))
     = timersDue st @ [now + cooldownMs, later + cooldownMs]"
  by (simp add: openaiInterrupt_def)

text \<open>
  Claim C7 on the OpenAI adapter. The interrupt is called at 0 ms and again at 50 ms,
  within the cooldown of the first call; it is called once more at 120 ms, and a text
  arrives at 160 ms, within the cooldown of that call. The timer of the call at 50 ms
  fires at 150 ms and clears the flag, so the text is sent to the provider. Without the
  call at 50 ms the flag is still set at 160 ms and the text is dropped, with a
  notification. The second of the two calls in rapid succession is not without effect.
  Also, two texts arriving within one cooldown are notified twice.
\<close>

theorem openai_interrupt_twice_differs_from_once:
  "snd (openaiRun openai_example_options openai_tts_initial
          [(0, InterruptCalled), (50, InterruptCalled), (120, InterruptCalled),
           (160, TextArrives ''hello'')])
     = [SpeechRequest ''hello'']
   \<and> snd (openaiRun openai_example_options openai_tts_initial
          [(0, InterruptCalled), (120, InterruptCalled), (160, TextArrives ''hello'')])
     = [InterruptNotified]
   \<and> snd (openaiRun openai_example_options openai_tts_initial
          [(0, InterruptCalled), (10, TextArrives ''one''), (20, TextArrives ''two'')])
     = [InterruptNotified, InterruptNotified]"
  by (simp add: openaiHandle_def openaiFireTimers_def openaiInterrupt_def cooldownMs_def
        openai_tts_initial_def openai_example_options_def)

end
